theory Spec2Isabelle
  imports Complex_Main "HOL-Library.Word" "HOL-Library.Monad_Syntax"
begin

unbundle bit_operations_syntax

section \<open>The DS18B20 one-wire driver of pxt-ds18b20.cpp\<close>

subsection \<open>The hardware the driver talks to\<close>

text \<open>
  The driver uses three operations of the micro:bit runtime, which is no part of the
  repository: \<^verbatim>\<open>system_timer_current_time_us()\<close>, \<^verbatim>\<open>pin->setDigitalValue(v)\<close> and
  \<^verbatim>\<open>pin->getDigitalValue()\<close>. They are parameters of the model. The driver is sequential
  and deterministic, so all it can observe of the hardware is the sequence of values the
  clock returns and the sequence of levels the line returns: \<open>clock w k\<close> is the value of
  the \<open>k\<close>-th call of the timer (microseconds since power-on, a \<^verbatim>\<open>uint64_t\<close>) and
  \<open>line w k\<close> the level seen by the \<open>k\<close>-th call of \<^verbatim>\<open>getDigitalValue\<close>; \<open>reads\<close> and
  \<open>samples\<close> count the calls made so far. \<open>pin\<close> is the global \<^verbatim>\<open>MicroBitPin *pin\<close>, and
  \<open>hist\<close> logs what the driver did, in order: every level it drove, every level it
  sampled, and every call of \<^verbatim>\<open>sleep_us\<close> with its argument. Levels are booleans
  (\<open>True\<close> is 1, high).
\<close>

datatype MicroBitPin =
  P0 | P1 | P2 | P3 | P4 | P5 | P6 | P7 | P8 | P9 | P10 | P11 | P12 | P13 | P14 | P15 | P16

datatype event =
  SetDigitalValue MicroBitPin bool
| GetDigitalValue MicroBitPin bool
| SleepUs "32 word"

record world =
  clock :: "nat \<Rightarrow> nat"
  reads :: nat
  line :: "nat \<Rightarrow> bool"
  samples :: nat
  pin :: MicroBitPin
  hist :: "event list"

definition system_timer_current_time_us :: "world \<Rightarrow> nat \<times> world" where
  "system_timer_current_time_us w = (clock w (reads w), w\<lparr>reads := Suc (reads w)\<rparr>)"

definition setDigitalValue :: "bool \<Rightarrow> world \<Rightarrow> world" where
  "setDigitalValue v w = w\<lparr>hist := hist w @ [SetDigitalValue (pin w) v]\<rparr>"

definition getDigitalValue :: "world \<Rightarrow> bool \<times> world" where
  "getDigitalValue w =
     (let v = line w (samples w)
      in (v, w\<lparr>samples := Suc (samples w), hist := hist w @ [GetDigitalValue (pin w) v]\<rparr>))"

subsection \<open>Busy waiting: sleep_us\<close>

text \<open>
  \<^verbatim>\<open>lasttime\<close>, \<^verbatim>\<open>nowtime\<close> and \<^verbatim>\<open>us\<close> are \<^verbatim>\<open>int\<close>: 32-bit words read as signed. Storing
  the 64-bit timer value in an \<^verbatim>\<open>int\<close> keeps its low 32 bits (\<open>word_of_nat\<close>); the
  difference \<^verbatim>\<open>nowtime - lasttime\<close> wraps around, as it does on the target, and is compared
  as a signed number. The loop has no bound: on a clock that stops it never returns,
  which is the value \<open>None\<close>.
\<close>

partial_function (option) sleep_us_poll ::
  "32 word \<Rightarrow> 32 word \<Rightarrow> 32 word \<Rightarrow> world \<Rightarrow> world option" where
  "sleep_us_poll us lasttime nowtime w =
     (if nowtime - lasttime <s us
      then (case system_timer_current_time_us w of
              (t, w') \<Rightarrow> sleep_us_poll us lasttime (word_of_nat t) w')
      else Some w)"

declare sleep_us_poll.simps [code]

definition sleep_us :: "32 word \<Rightarrow> world \<Rightarrow> world option" where
  "sleep_us us w =
     (case system_timer_current_time_us (w\<lparr>hist := hist w @ [SleepUs us]\<rparr>) of
        (t0, w1) \<Rightarrow>
          (case system_timer_current_time_us w1 of
             (t1, w2) \<Rightarrow> sleep_us_poll us (word_of_nat t0) (word_of_nat t1) w2))"

subsection \<open>Write slots and read slots\<close>

text \<open>
  \<open>ds18b20WiteByte_slot\<close> is the body of the loop of \<^verbatim>\<open>ds18b20WiteByte\<close> (lines 40 to 53),
  with the tested bit \<^verbatim>\<open>(data >> i) & 0x01\<close> as its argument.
\<close>

definition ds18b20WiteByte_slot :: "bool \<Rightarrow> world \<Rightarrow> world option" where
  "ds18b20WiteByte_slot b w =
     (if b
      then do {
        w \<leftarrow> sleep_us 2 (setDigitalValue False w);
        sleep_us 60 (setDigitalValue True w)
      }
      else do {
        w \<leftarrow> sleep_us 60 (setDigitalValue False w);
        sleep_us 2 (setDigitalValue True w)
      })"

function ds18b20WiteByte_loop :: "nat \<Rightarrow> 8 word \<Rightarrow> world \<Rightarrow> world option" where
  "ds18b20WiteByte_loop i data w =
     (if i < 8
      then do {
        w \<leftarrow> ds18b20WiteByte_slot (drop_bit i data AND 1 \<noteq> 0) w;
        ds18b20WiteByte_loop (Suc i) data w
      }
      else Some w)"
  by pat_completeness auto
termination
  by (relation "measure (\<lambda>(i, data, w). 8 - i)") auto

definition ds18b20WiteByte :: "8 word \<Rightarrow> world \<Rightarrow> world option" where
  "ds18b20WiteByte data w = ds18b20WiteByte_loop 0 data w"

definition ds18b20ReadBit :: "world \<Rightarrow> (8 word \<times> world) option" where
  "ds18b20ReadBit w = do {
     w \<leftarrow> sleep_us 2 (setDigitalValue False w);
     w \<leftarrow> sleep_us 5 (setDigitalValue True w);
     (v, w) \<leftarrow> Some (getDigitalValue w);
     bit \<leftarrow> Some (if v then 1 else 0);
     w \<leftarrow> sleep_us 60 w;
     Some (bit, w)
   }"

function ds18b20ReadByte_loop :: "nat \<Rightarrow> 8 word \<Rightarrow> world \<Rightarrow> (8 word \<times> world) option" where
  "ds18b20ReadByte_loop i data w =
     (if i < 8
      then do {
        (bit, w) \<leftarrow> ds18b20ReadBit w;
        w \<leftarrow> sleep_us 2 w;
        ds18b20ReadByte_loop (Suc i) (data OR push_bit i bit) w
      }
      else Some (data, w))"
  by pat_completeness auto
termination
  by (relation "measure (\<lambda>(i, data, w). 8 - i)") auto

definition ds18b20ReadByte :: "world \<Rightarrow> (8 word \<times> world) option" where
  "ds18b20ReadByte w = do {
     (data, w) \<leftarrow> ds18b20ReadByte_loop 0 0 w;
     w \<leftarrow> sleep_us 2 w;
     Some (data, w)
   }"

subsection \<open>Reset and presence\<close>

text \<open>
  \<open>ds18b20Check_high\<close> and \<open>ds18b20Check_low\<close> are the two \<^verbatim>\<open>while\<close> loops of
  \<^verbatim>\<open>ds18b20Check\<close>, with the counter \<^verbatim>\<open>state\<close> as argument and result.
\<close>

definition ds18b20Rest :: "world \<Rightarrow> world option" where
  "ds18b20Rest w = do {
     w \<leftarrow> sleep_us 750 (setDigitalValue False w);
     sleep_us 15 (setDigitalValue True w)
   }"

function ds18b20Check_high :: "int \<Rightarrow> world \<Rightarrow> (int \<times> world) option" where
  "ds18b20Check_high state w =
     (case getDigitalValue w of
        (v, w) \<Rightarrow>
          if v
          then do {
            w \<leftarrow> sleep_us 1 w;
            if state + 1 \<ge> 200 then Some (state + 1, w)
            else ds18b20Check_high (state + 1) w
          }
          else Some (state, w))"
  by pat_completeness auto
termination
  by (relation "measure (\<lambda>(state, w). nat (200 - state))") auto

function ds18b20Check_low :: "int \<Rightarrow> world \<Rightarrow> (int \<times> world) option" where
  "ds18b20Check_low state w =
     (case getDigitalValue w of
        (v, w) \<Rightarrow>
          if \<not> v
          then do {
            w \<leftarrow> sleep_us 1 w;
            if state + 1 \<ge> 240 then Some (state + 1, w)
            else ds18b20Check_low (state + 1) w
          }
          else Some (state, w))"
  by pat_completeness auto
termination
  by (relation "measure (\<lambda>(state, w). nat (240 - state))") auto

definition ds18b20Check :: "world \<Rightarrow> (bool \<times> world) option" where
  "ds18b20Check w = do {
     (state, w) \<leftarrow> ds18b20Check_high 0 w;
     if state \<ge> 200 then Some (False, w)
     else do {
       (state, w) \<leftarrow> ds18b20Check_low 0 w;
       if state \<ge> 240 then Some (False, w)
       else Some (True, w)
     }
   }"

subsection \<open>Transactions\<close>

text \<open>Both callers of \<^verbatim>\<open>ds18b20Check\<close> drop its result.\<close>

definition ds18b20Start :: "world \<Rightarrow> world option" where
  "ds18b20Start w = do {
     w \<leftarrow> ds18b20Rest w;
     (present, w) \<leftarrow> ds18b20Check w;
     w \<leftarrow> sleep_us 2 w;
     w \<leftarrow> ds18b20WiteByte 0xCC w;
     ds18b20WiteByte 0x44 w
   }"

text \<open>
  Lines 224 to 234 of \<^verbatim>\<open>ds18b20GetTemperture\<close>: \<^verbatim>\<open>temp\<close> is a \<^verbatim>\<open>uint16_t\<close>, \<^verbatim>\<open>TH\<close> and
  \<^verbatim>\<open>TL\<close> are \<^verbatim>\<open>uint8_t\<close>. The statement \<^verbatim>\<open>temp << 8;\<close> computes a value and drops it, so
  it is no step of the model. The arithmetic of the source happens in \<^verbatim>\<open>int\<close> and is cut
  back to 16 bits by the assignment, which is what the operations on \<open>16 word\<close> compute.
  The product with \<^verbatim>\<open>0.0625\<close> is a multiple of 1/16 below \<open>2 ^ 16\<close>, which both \<^verbatim>\<open>double\<close>
  and \<^verbatim>\<open>float\<close> hold exactly, so the returned number is modelled by a real.
\<close>

definition ds18b20GetTemperture_decode :: "8 word \<Rightarrow> 8 word \<Rightarrow> real" where
  "ds18b20GetTemperture_decode TH TL =
     (let temp = (ucast TH :: 16 word);
          temp = temp + ucast TL
      in if temp AND 0xF800 = 0xF800
         then (let temp = NOT temp + 1 in real (unat temp) * (- 0.0625))
         else real (unat temp) * 0.0625)"

definition ds18b20GetTemperture :: "world \<Rightarrow> (real \<times> world) option" where
  "ds18b20GetTemperture w = do {
     w \<leftarrow> ds18b20Start w;
     w \<leftarrow> sleep_us 100 w;
     w \<leftarrow> ds18b20Rest w;
     (present, w) \<leftarrow> ds18b20Check w;
     w \<leftarrow> sleep_us 2 w;
     w \<leftarrow> ds18b20WiteByte 0xCC w;
     w \<leftarrow> ds18b20WiteByte 0xBE w;
     (TL, w) \<leftarrow> ds18b20ReadByte w;
     w \<leftarrow> sleep_us 100 w;
     (TH, w) \<leftarrow> ds18b20ReadByte w;
     Some (ds18b20GetTemperture_decode TH TL, w)
   }"

text \<open>The \<^verbatim>\<open>switch\<close> of \<^verbatim>\<open>temperature\<close> assigns the global pin, then the measurement runs.\<close>

definition temperature :: "int \<Rightarrow> world \<Rightarrow> (real \<times> world) option" where
  "temperature p w =
     ds18b20GetTemperture
       (w\<lparr>pin :=
          (if p = 0 then P0 else if p = 1 then P1 else if p = 2 then P2
           else if p = 3 then P3 else if p = 4 then P4 else if p = 5 then P5
           else if p = 6 then P6 else if p = 7 then P7 else if p = 8 then P8
           else if p = 9 then P9 else if p = 10 then P10 else if p = 11 then P11
           else if p = 12 then P12 else if p = 13 then P13 else if p = 14 then P14
           else if p = 15 then P15 else if p = 16 then P16 else P8)\<rparr>)"


subsection \<open>Notions used to state the properties\<close>

text \<open>
  \<open>still_waiting c us r i\<close> is the loop test of \<^verbatim>\<open>sleep_us\<close> for a delay that read its
  start time at reading \<open>r\<close> and polls reading \<open>i\<close>. A clock is \<open>ticking\<close> when it never
  runs backwards, advances by less than \<open>2 ^ 30\<close> microseconds between two readings and
  is unbounded.
\<close>

definition still_waiting :: "(nat \<Rightarrow> nat) \<Rightarrow> 32 word \<Rightarrow> nat \<Rightarrow> nat \<Rightarrow> bool" where
  "still_waiting c us r i \<longleftrightarrow> (word_of_nat (c i) :: 32 word) - word_of_nat (c r) <s us"

definition ticking :: "(nat \<Rightarrow> nat) \<Rightarrow> bool" where
  "ticking c \<longleftrightarrow>
     (\<forall>n. c n \<le> c (Suc n) \<and> c (Suc n) < c n + 2 ^ 30) \<and> (\<forall>n. \<exists>m. c n < c m)"

text \<open>
  \<open>poll_post\<close> is what the polling loop has done when it returns, if it was entered
  right after reading \<open>k\<close> with that reading as \<^verbatim>\<open>nowtime\<close>: it stopped at the first reading
  from \<open>k\<close> on at which the loop test failed, and changed nothing but the count of readings.
\<close>

definition poll_post :: "32 word \<Rightarrow> 32 word \<Rightarrow> 32 word \<Rightarrow> world \<Rightarrow> world \<Rightarrow> bool" where
  "poll_post us lasttime nowtime w w' \<longleftrightarrow>
     (\<forall>k. reads w = Suc k \<and> nowtime = word_of_nat (clock w k) \<longrightarrow>
        (\<exists>m\<ge>k. w' = w\<lparr>reads := Suc m\<rparr>
           \<and> \<not> (word_of_nat (clock w m) - lasttime <s us)
           \<and> (\<forall>i. k \<le> i \<and> i < m \<longrightarrow> word_of_nat (clock w i) - lasttime <s us)))"

text \<open>
  For examples: the clock whose \<open>k\<close>-th reading is \<open>k\<close>, and the world on that clock in
  which nothing has happened yet, P8 is bound and the line always reads high (no device
  pulls it low).
\<close>

definition unit_clock :: "nat \<Rightarrow> nat" where
  "unit_clock k = k"

definition idle_world :: world where
  "idle_world =
     \<lparr>clock = unit_clock, reads = 0, line = (\<lambda>k. True), samples = 0, pin = P8, hist = []\<rparr>"

subsection \<open>Expected histories\<close>

text \<open>
  What the properties expect the driver to log: the events of a write slot for a bit, of
  the eight write slots of a byte (bit 0 first), of a read slot that samples the level
  \<open>v\<close>, of a byte read whose \<open>j\<close>-th sample is \<open>lv j\<close>, of the reset pulse, and of \<open>k\<close>
  polling ticks of the presence check that all sampled the level \<open>v\<close>. \<open>advance w k es w'\<close>
  says that \<open>w'\<close> is \<open>w\<close> after \<open>k\<close> more samples, the events \<open>es\<close> and some clock
  readings, with nothing else changed.
\<close>

definition write_slot_events :: "MicroBitPin \<Rightarrow> bool \<Rightarrow> event list" where
  "write_slot_events p b =
     [SetDigitalValue p False, SleepUs (if b then 2 else 60),
      SetDigitalValue p True, SleepUs (if b then 60 else 2)]"

definition write_byte_events :: "MicroBitPin \<Rightarrow> 8 word \<Rightarrow> event list" where
  "write_byte_events p d = concat (map (\<lambda>i. write_slot_events p (bit d i)) [0..<8])"

definition read_slot_events :: "MicroBitPin \<Rightarrow> bool \<Rightarrow> event list" where
  "read_slot_events p v =
     [SetDigitalValue p False, SleepUs 2, SetDigitalValue p True, SleepUs 5,
      GetDigitalValue p v, SleepUs 60]"

definition advance :: "world \<Rightarrow> nat \<Rightarrow> event list \<Rightarrow> world \<Rightarrow> bool" where
  "advance w k es w' \<longleftrightarrow>
     (\<exists>n\<ge>reads w. w' = w\<lparr>reads := n, samples := samples w + k, hist := hist w @ es\<rparr>)"

definition read_byte_events :: "MicroBitPin \<Rightarrow> (nat \<Rightarrow> bool) \<Rightarrow> event list" where
  "read_byte_events p lv =
     concat (map (\<lambda>j. read_slot_events p (lv j) @ [SleepUs 2]) [0..<8]) @ [SleepUs 2]"

definition reset_events :: "MicroBitPin \<Rightarrow> event list" where
  "reset_events p =
     [SetDigitalValue p False, SleepUs 750, SetDigitalValue p True, SleepUs 15]"

definition poll_events :: "MicroBitPin \<Rightarrow> bool \<Rightarrow> nat \<Rightarrow> event list" where
  "poll_events p v k = concat (replicate k [GetDigitalValue p v, SleepUs 1])"

text \<open>
  Worlds for examples, all on the clock whose \<open>k\<close>-th reading is \<open>k\<close>: a line that
  always reads low, and a line that reads high at every third sample.
\<close>

definition stuck_world :: world where
  "stuck_world =
     \<lparr>clock = unit_clock, reads = 0, line = (\<lambda>k. False), samples = 0, pin = P8, hist = []\<rparr>"

definition blink_world :: world where
  "blink_world =
     \<lparr>clock = unit_clock, reads = 0, line = (\<lambda>k. k mod 3 = 0), samples = 0, pin = P8, hist = []\<rparr>"



text \<open>
  The levels a slave that samples the line 15 microseconds after each falling edge
  reads from a history of write slots: high when the master asked for a low phase
  shorter than that. The list ends at the first event that is no write slot.
\<close>

fun slot_levels :: "event list \<Rightarrow> bool list" where
  "slot_levels (SetDigitalValue p False # SleepUs lo # SetDigitalValue q True # SleepUs hi # es)
     = (lo <s 15) # slot_levels es"
| "slot_levels es = []"

text \<open>An echoing line: its \<open>k\<close>-th sample is bit \<open>k\<close> of the byte.\<close>

definition echo_world :: "8 word \<Rightarrow> world" where
  "echo_world v =
     \<lparr>clock = unit_clock, reads = 0, line = bit v, samples = 0, pin = P8, hist = []\<rparr>"

text \<open>
  \<open>on_pin q e\<close>: the event \<open>e\<close> does not touch a pin other than \<open>q\<close>. \<open>drives w w'\<close>: the
  driver went from \<open>w\<close> to \<open>w'\<close> by clock readings, samples and events on the pin bound
  in \<open>w\<close> only.
\<close>

fun on_pin :: "MicroBitPin \<Rightarrow> event \<Rightarrow> bool" where
  "on_pin q (SetDigitalValue p v) = (p = q)"
| "on_pin q (GetDigitalValue p v) = (p = q)"
| "on_pin q (SleepUs us) = True"

definition drives :: "world \<Rightarrow> world \<Rightarrow> bool" where
  "drives w w' \<longleftrightarrow> (\<exists>k es. advance w k es w' \<and> list_all (on_pin (pin w)) es)"

section \<open>Properties of the decoder\<close>

lemma unat_u8_lt: "unat (b :: 8 word) < 256"
  using unsigned_less [of b, where 'a = nat] by simp

lemma unat_sum_bytes:
  "unat (ucast (TH :: 8 word) + ucast (TL :: 8 word) :: 16 word) = unat TH + unat TL"
proof -
  have "unat (ucast TH :: 16 word) = unat TH" "unat (ucast TL :: 16 word) = unat TL"
    using unat_u8_lt [of TH] unat_u8_lt [of TL]
    by (simp_all add: unsigned_ucast_eq take_bit_nat_eq_self)
  moreover have "unat TH + unat TL < 2 ^ 16"
    using unat_u8_lt [of TH] unat_u8_lt [of TL] by simp
  ultimately show ?thesis
    by (simp add: unat_word_ariths)
qed

lemma sign_pattern_large: "x AND 0xF800 = 0xF800 \<Longrightarrow> 63488 \<le> unat (x :: 16 word)"
proof -
  assume h: "x AND 0xF800 = 0xF800"
  have "x AND 0xF800 \<le> x" by (rule word_and_le2)
  with h have "(0xF800 :: 16 word) \<le> x" by simp
  then show ?thesis by (simp add: word_le_nat_alt)
qed

lemma sum_bytes_no_sign:
  "(ucast (TH :: 8 word) + ucast (TL :: 8 word) :: 16 word) AND 0xF800 \<noteq> 0xF800"
proof
  assume "(ucast TH + ucast TL :: 16 word) AND 0xF800 = 0xF800"
  then have "63488 \<le> unat (ucast TH + ucast TL :: 16 word)" by (rule sign_pattern_large)
  then show False
    using unat_u8_lt [of TH] unat_u8_lt [of TL] by (simp add: unat_sum_bytes)
qed

lemma decode_eq_sum:
  "ds18b20GetTemperture_decode TH TL = real (unat TH + unat TL) * 0.0625"
  by (simp add: ds18b20GetTemperture_decode_def Let_def sum_bytes_no_sign unat_sum_bytes)

text \<open>
  C1, evaluated on the code. The claim asks for \<open>(TH << 8) | TL\<close> times 0.0625, that is
  125.0 for \<open>TH = 0x07\<close>, \<open>TL = 0xD0\<close>. The shift is never stored, so the code adds the two
  bytes: it returns \<open>(7 + 208) / 16 = 13.4375\<close>, which is neither 125 nor the value of
  the combined 16-bit word.
\<close>

theorem decode_positive_example_diverges:
  "ds18b20GetTemperture_decode 0x07 0xD0 = 13.4375
   \<and> ds18b20GetTemperture_decode 0x07 0xD0 \<noteq> 125
   \<and> ds18b20GetTemperture_decode 0x07 0xD0
       \<noteq> real (unat (push_bit 8 (ucast (0x07 :: 8 word) :: 16 word) OR ucast (0xD0 :: 8 word))) * 0.0625
   \<and> ds18b20GetTemperture_decode 0x00 0x64 = 6.25"
  by (simp add: ds18b20GetTemperture_decode_def)

text \<open>
  C2, evaluated on the code. The claim asks for -6.25 at \<open>TH = 0xFF\<close>, \<open>TL = 0x9C\<close> and for
  -0.5 at \<open>TH = 0xFF\<close>, \<open>TL = 0xF8\<close>. The code adds the bytes, never sees the sign
  pattern, and returns \<open>(255 + 156) / 16 = 25.6875\<close> and \<open>(255 + 248) / 16 = 31.4375\<close>.
\<close>

theorem decode_negative_example_diverges:
  "ds18b20GetTemperture_decode 0xFF 0x9C = 25.6875
   \<and> ds18b20GetTemperture_decode 0xFF 0x9C \<noteq> - 6.25
   \<and> ds18b20GetTemperture_decode 0xFF 0xF8 = 31.4375
   \<and> ds18b20GetTemperture_decode 0xFF 0xF8 \<noteq> - 0.5"
  by (simp add: ds18b20GetTemperture_decode_def)

text \<open>
  C10: for all bytes \<open>TH\<close> and \<open>TL\<close> the decoded value is \<open>(TH + TL) * 0.0625\<close>; the
  16-bit \<open>temp\<close> is at most 510, the test \<open>(temp & 0xF800) == 0xF800\<close> fails, and the
  result lies between 0 and 31.875.
\<close>

theorem decode_adds_bytes:
  "ds18b20GetTemperture_decode TH TL = (real (unat TH) + real (unat TL)) * 0.0625
   \<and> unat (ucast TH + ucast TL :: 16 word) \<le> 510
   \<and> (ucast TH + ucast TL :: 16 word) AND 0xF800 \<noteq> 0xF800
   \<and> 0 \<le> ds18b20GetTemperture_decode TH TL
   \<and> ds18b20GetTemperture_decode TH TL \<le> 31.875"
proof -
  have b: "unat TH + unat TL \<le> 510"
    using unat_u8_lt [of TH] unat_u8_lt [of TL] by simp
  then have r: "real (unat TH + unat TL) \<le> 510"
    by (metis of_nat_le_iff of_nat_numeral)
  have "ds18b20GetTemperture_decode TH TL = (real (unat TH) + real (unat TL)) * 0.0625"
    by (simp add: decode_eq_sum)
  moreover have "unat (ucast TH + ucast TL :: 16 word) \<le> 510"
    using b by (simp add: unat_sum_bytes)
  moreover have "0 \<le> ds18b20GetTemperture_decode TH TL"
  proof -
    have "0 \<le> real (unat TH + unat TL)" by (rule of_nat_0_le_iff)
    then have "0 \<le> real (unat TH + unat TL) * 0.0625" by (rule mult_nonneg_nonneg) simp
    then show ?thesis by (simp only: decode_eq_sum)
  qed
  moreover have "ds18b20GetTemperture_decode TH TL \<le> 31.875"
    unfolding decode_eq_sum using r by simp
  ultimately show ?thesis
    using sum_bytes_no_sign [of TH TL] by blast
qed

section \<open>Properties of sleep_us\<close>

subsection \<open>Elapsed time as seen through 32-bit differences\<close>

lemma sint_small: "int d < 2 ^ 31 \<Longrightarrow> sint (word_of_nat d :: 32 word) = int d"
proof -
  assume "int d < 2 ^ 31"
  moreover have "- (2 ^ 31) \<le> int d" by simp
  ultimately have "signed_take_bit 31 (int d) = int d"
    by (rule signed_take_bit_int_eq_self [rotated])
  then show ?thesis by (simp add: signed_of_nat)
qed

lemma sint_elapsed:
  assumes "a \<le> b" and "int (b - a) < 2 ^ 31"
  shows "sint ((word_of_nat b :: 32 word) - word_of_nat a) = int (b - a)"
proof -
  have "(word_of_nat b :: 32 word) - word_of_nat a = word_of_nat (b - a)"
    using assms(1) by (simp only: of_nat_diff)
  then show ?thesis using sint_small [OF assms(2)] by (simp only:)
qed

lemma no_undershoot:
  assumes ab: "a \<le> b" and us: "0 \<le> sint us"
    and ex: "\<not> ((word_of_nat b :: 32 word) - word_of_nat a <s us)"
  shows "a + nat (sint us) \<le> b"
proof (rule ccontr)
  assume "\<not> a + nat (sint us) \<le> b"
  then have lt: "int (b - a) < sint us" using ab us by linarith
  have "sint us < 2 ^ 31" using sint_lt [of us] by simp
  with lt have "int (b - a) < 2 ^ 31" by (rule less_trans)
  with ab have "sint ((word_of_nat b :: 32 word) - word_of_nat a) = int (b - a)"
    by (rule sint_elapsed)
  with lt have "(word_of_nat b :: 32 word) - word_of_nat a <s us"
    by (simp only: word_sless_alt)
  with ex show False by simp
qed

lemma exit_when_reached:
  assumes ab: "a + nat (sint us) \<le> b" and us: "0 \<le> sint us" and near: "int (b - a) < 2 ^ 31"
  shows "\<not> ((word_of_nat b :: 32 word) - word_of_nat a <s us)"
proof -
  have le: "a \<le> b" using ab by simp
  from le near have "sint ((word_of_nat b :: 32 word) - word_of_nat a) = int (b - a)"
    by (rule sint_elapsed)
  moreover have "sint us \<le> int (b - a)" using ab us by linarith
  ultimately show ?thesis by (simp only: word_sless_alt not_less)
qed

lemma continue_before:
  assumes ab: "a \<le> b" and lt: "b < a + nat (sint us)"
  shows "(word_of_nat b :: 32 word) - word_of_nat a <s us"
proof -
  have lt': "int (b - a) < sint us" using ab lt by linarith
  have "sint us < 2 ^ 31" using sint_lt [of us] by simp
  with lt' have "int (b - a) < 2 ^ 31" by (rule less_trans)
  with ab have "sint ((word_of_nat b :: 32 word) - word_of_nat a) = int (b - a)"
    by (rule sint_elapsed)
  with lt' show ?thesis by (simp only: word_sless_alt)
qed

subsection \<open>The polling loop\<close>

lemma poll_post_step:
  assumes IH: "\<And>us lasttime nowtime w w'.
                 poll us lasttime nowtime w = Some w' \<Longrightarrow> poll_post us lasttime nowtime w w'"
    and body: "(if nowtime - lasttime <s us
                then (case system_timer_current_time_us w of
                        (t, w') \<Rightarrow> poll us lasttime (word_of_nat t) w')
                else Some w) = Some w'"
  shows "poll_post us lasttime nowtime w w'"
  unfolding poll_post_def
proof (intro allI impI, elim conjE)
  fix k
  assume r: "reads w = Suc k" and n: "nowtime = word_of_nat (clock w k)"
  show "\<exists>m\<ge>k. w' = w\<lparr>reads := Suc m\<rparr>
         \<and> \<not> (word_of_nat (clock w m) - lasttime <s us)
         \<and> (\<forall>i. k \<le> i \<and> i < m \<longrightarrow> word_of_nat (clock w i) - lasttime <s us)"
  proof (cases "nowtime - lasttime <s us")
    case False
    with body have "w' = w" by simp
    with False r n show ?thesis by (intro exI [of _ k]) auto
  next
    case True
    with body have
      "poll us lasttime (word_of_nat (clock w (Suc k))) (w\<lparr>reads := Suc (Suc k)\<rparr>) = Some w'"
      by (simp add: system_timer_current_time_us_def r)
    then have "poll_post us lasttime (word_of_nat (clock w (Suc k))) (w\<lparr>reads := Suc (Suc k)\<rparr>) w'"
      by (rule IH)
    then obtain m where m: "Suc k \<le> m" "w' = w\<lparr>reads := Suc m\<rparr>"
      "\<not> (word_of_nat (clock w m) - lasttime <s us)"
      "\<forall>i. Suc k \<le> i \<and> i < m \<longrightarrow> word_of_nat (clock w i) - lasttime <s us"
      unfolding poll_post_def by auto
    have "\<forall>i. k \<le> i \<and> i < m \<longrightarrow> word_of_nat (clock w i) - lasttime <s us"
    proof (intro allI impI)
      fix i assume "k \<le> i \<and> i < m"
      then have "i = k \<or> (Suc k \<le> i \<and> i < m)" by auto
      then show "word_of_nat (clock w i) - lasttime <s us"
        using True n m(4) by auto
    qed
    with m show ?thesis by (intro exI [of _ m]) simp
  qed
qed

lemma sleep_us_poll_post:
  "sleep_us_poll us lasttime nowtime w = Some w' \<Longrightarrow> poll_post us lasttime nowtime w w'"
  by (rule sleep_us_poll.raw_induct [of poll_post]) (rule poll_post_step)


lemma sleep_us_poll_returns:
  assumes "reads w = Suc k" and "nowtime = word_of_nat (clock w k)"
    and "k \<le> m" and "\<not> (word_of_nat (clock w m) - lasttime <s us)"
  shows "\<exists>w'. sleep_us_poll us lasttime nowtime w = Some w'"
  using assms
proof (induction "m - k" arbitrary: k nowtime w)
  case 0
  then have "k = m" by simp
  with 0 show ?case by (simp add: sleep_us_poll.simps)
next
  case (Suc d)
  show ?case
  proof (cases "nowtime - lasttime <s us")
    case False
    then show ?thesis by (simp add: sleep_us_poll.simps)
  next
    case True
    let ?w = "w\<lparr>reads := Suc (Suc k)\<rparr>"
    have "d = m - Suc k" using Suc.hyps(2) by simp
    moreover have "reads ?w = Suc (Suc k)" by simp
    moreover have "word_of_nat (clock w (Suc k)) = word_of_nat (clock ?w (Suc k))" by simp
    moreover have "Suc k \<le> m" using Suc.hyps(2) by simp
    moreover have "\<not> (word_of_nat (clock ?w m) - lasttime <s us)" using Suc.prems(4) by simp
    ultimately have "\<exists>w'. sleep_us_poll us lasttime (word_of_nat (clock w (Suc k))) ?w = Some w'"
      by (rule Suc.hyps(1))
    then show ?thesis
      using True Suc.prems(1)
      by (subst sleep_us_poll.simps) (simp add: system_timer_current_time_us_def)
  qed
qed


subsection \<open>sleep_us\<close>

lemma sleep_us_Some:
  assumes "sleep_us us w = Some w'"
  shows "\<exists>n. reads w + 2 \<le> n \<and> w' = w\<lparr>reads := n, hist := hist w @ [SleepUs us]\<rparr>
           \<and> \<not> still_waiting (clock w) us (reads w) (n - 1)
           \<and> (\<forall>i. reads w < i \<and> i < n - 1 \<longrightarrow> still_waiting (clock w) us (reads w) i)"
proof -
  let ?w2 = "w\<lparr>hist := hist w @ [SleepUs us], reads := Suc (Suc (reads w))\<rparr>"
  from assms have
    "sleep_us_poll us (word_of_nat (clock w (reads w))) (word_of_nat (clock w (Suc (reads w)))) ?w2
       = Some w'"
    by (simp add: sleep_us_def system_timer_current_time_us_def)
  then have "poll_post us (word_of_nat (clock w (reads w))) (word_of_nat (clock w (Suc (reads w)))) ?w2 w'"
    by (rule sleep_us_poll_post)
  then obtain m where m: "Suc (reads w) \<le> m" "w' = ?w2\<lparr>reads := Suc m\<rparr>"
    "\<not> (word_of_nat (clock w m) - word_of_nat (clock w (reads w)) <s us)"
    "\<forall>i. Suc (reads w) \<le> i \<and> i < m \<longrightarrow>
       word_of_nat (clock w i) - word_of_nat (clock w (reads w)) <s us"
    unfolding poll_post_def by auto
  show ?thesis
  proof (intro exI [of _ "Suc m"] conjI)
    show "reads w + 2 \<le> Suc m" using m(1) by simp
    show "w' = w\<lparr>reads := Suc m, hist := hist w @ [SleepUs us]\<rparr>" using m(2) by simp
    show "\<not> still_waiting (clock w) us (reads w) (Suc m - 1)"
      using m(3) by (simp add: still_waiting_def)
    show "\<forall>i. reads w < i \<and> i < Suc m - 1 \<longrightarrow> still_waiting (clock w) us (reads w) i"
      using m(4) by (simp add: still_waiting_def)
  qed
qed

lemma sleep_us_returns:
  assumes "reads w < m" and "\<not> still_waiting (clock w) us (reads w) m"
  shows "\<exists>w'. sleep_us us w = Some w'"
proof -
  let ?w2 = "w\<lparr>hist := hist w @ [SleepUs us], reads := Suc (Suc (reads w))\<rparr>"
  have "\<exists>w'. sleep_us_poll us (word_of_nat (clock w (reads w)))
          (word_of_nat (clock w (Suc (reads w)))) ?w2 = Some w'"
  proof (rule sleep_us_poll_returns [where k = "Suc (reads w)" and m = m])
    show "reads ?w2 = Suc (Suc (reads w))" by simp
    show "word_of_nat (clock w (Suc (reads w))) = word_of_nat (clock ?w2 (Suc (reads w)))" by simp
    show "Suc (reads w) \<le> m" using assms(1) by simp
    show "\<not> word_of_nat (clock ?w2 m) - word_of_nat (clock w (reads w)) <s us"
      using assms(2) by (simp add: still_waiting_def)
  qed
  then show ?thesis
    by (simp add: sleep_us_def system_timer_current_time_us_def)
qed

subsection \<open>Clocks on which every delay ends\<close>

lemma ticking_mono: "ticking c \<Longrightarrow> mono c"
  by (rule incseq_SucI) (simp add: ticking_def)

lemma ticking_reaches:
  assumes "ticking c"
  shows "\<exists>m. T \<le> c m"
proof (induction T)
  case 0
  show ?case by simp
next
  case (Suc T)
  then obtain m where "T \<le> c m" ..
  moreover obtain m' where "c m < c m'" using assms unfolding ticking_def by blast
  ultimately have "Suc T \<le> c m'" by simp
  then show ?case ..
qed

lemma ticking_exit:
  assumes t: "ticking c" and us: "0 \<le> sint us" "sint us < 2 ^ 30"
  shows "\<exists>m>r. \<not> still_waiting c us r m"
proof -
  define T where "T = c r + nat (sint us)"
  have mono: "mono c" using t by (rule ticking_mono)
  obtain M where M: "Suc T \<le> c M" using ticking_reaches [OF t] by blast
  have "r < M"
  proof (rule ccontr)
    assume "\<not> r < M"
    then have "c M \<le> c r" using mono by (simp add: monoD)
    with M show False by (simp add: T_def)
  qed
  with M have ex: "r < M \<and> T \<le> c M" by simp
  define m where "m = (LEAST m. r < m \<and> T \<le> c m)"
  have m: "r < m \<and> T \<le> c m"
    unfolding m_def using ex by (rule LeastI)
  have prev: "c (m - 1) \<le> T"
  proof (cases "r < m - 1")
    case True
    have "\<not> (r < m - 1 \<and> T \<le> c (m - 1))"
      unfolding m_def using m by (intro not_less_Least) (simp add: m_def)
    with True show ?thesis by simp
  next
    case False
    with m have "m - 1 = r" by linarith
    then show ?thesis by (simp add: T_def)
  qed
  have "c (Suc (m - 1)) < c (m - 1) + 2 ^ 30" using t unfolding ticking_def by blast
  moreover have "Suc (m - 1) = m" using m by simp
  ultimately have step: "c m < c (m - 1) + 2 ^ 30" by simp
  have "nat (sint us) < 2 ^ 30" using us by (simp add: nat_less_iff)
  with step prev have "c m < c r + 2 ^ 31" by (simp add: T_def)
  then have near: "int (c m - c r) < 2 ^ 31" by (simp add: nat_less_iff flip: of_nat_less_iff)
  have "c r + nat (sint us) \<le> c m" using m by (simp add: T_def)
  then have "\<not> ((word_of_nat (c m) :: 32 word) - word_of_nat (c r) <s us)"
    using us(1) near by (rule exit_when_reached)
  then show ?thesis using m by (auto simp: still_waiting_def)
qed

lemma sleep_us_ticking:
  assumes "ticking (clock w)" and "0 \<le> sint us" and "sint us < 2 ^ 30"
  shows "\<exists>w'. sleep_us us w = Some w'"
proof -
  from ticking_exit [OF assms] obtain m where
    "reads w < m" "\<not> still_waiting (clock w) us (reads w) m" by blast
  then show ?thesis by (rule sleep_us_returns)
qed

lemma sleep_us_elapsed:
  assumes "sleep_us us w = Some w'" and "mono (clock w)" and "0 \<le> sint us"
  shows "reads w + 2 \<le> reads w' \<and> clock w (reads w) + nat (sint us) \<le> clock w (reads w' - 1)"
proof -
  from sleep_us_Some [OF assms(1)] obtain n where n: "reads w + 2 \<le> n"
    "w' = w\<lparr>reads := n, hist := hist w @ [SleepUs us]\<rparr>"
    "\<not> still_waiting (clock w) us (reads w) (n - 1)" by blast
  have "clock w (reads w) \<le> clock w (n - 1)" using assms(2) n(1) by (simp add: monoD)
  then have "clock w (reads w) + nat (sint us) \<le> clock w (n - 1)"
    using assms(3) n(3) unfolding still_waiting_def by (rule no_undershoot)
  with n(1,2) show ?thesis by simp
qed

lemma unit_clock_mono: "mono unit_clock"
  by (rule monoI) (simp add: unit_clock_def)

lemma unit_clock_ticking: "ticking unit_clock"
  unfolding ticking_def unit_clock_def
proof (intro conjI allI)
  fix n :: nat
  show "n \<le> Suc n" by simp
  show "Suc n < n + 2 ^ 30" by simp
  show "\<exists>m. n < m" by (rule exI [of _ "Suc n"]) simp
qed

text \<open>
  C9: on a clock that never runs backwards, a call of \<open>sleep_us\<close> with a non-negative
  argument \<open>us\<close> that returns has made at least two readings, and its last reading is at
  least \<open>us\<close> microseconds after its first one (the start time): the delay never
  undershoots. At every reading in between the loop test still held, and the call did
  nothing but read the clock. On a ticking clock the call does return.
\<close>

theorem sleep_us_never_undershoots:
  assumes "mono (clock w)" and "0 \<le> sint us"
  shows "(\<forall>w'. sleep_us us w = Some w' \<longrightarrow>
            reads w + 2 \<le> reads w'
          \<and> clock w (reads w) + nat (sint us) \<le> clock w (reads w' - 1)
          \<and> (\<forall>i. reads w < i \<and> i < reads w' - 1 \<longrightarrow> still_waiting (clock w) us (reads w) i)
          \<and> w' = w\<lparr>reads := reads w', hist := hist w @ [SleepUs us]\<rparr>)
       \<and> (ticking (clock w) \<and> sint us < 2 ^ 30 \<longrightarrow> (\<exists>w'. sleep_us us w = Some w'))"
proof (intro conjI allI impI)
  fix w'
  assume s: "sleep_us us w = Some w'"
  from sleep_us_elapsed [OF s assms]
  show "reads w + 2 \<le> reads w'"
    and "clock w (reads w) + nat (sint us) \<le> clock w (reads w' - 1)" by simp_all
  from sleep_us_Some [OF s] obtain n where n:
    "w' = w\<lparr>reads := n, hist := hist w @ [SleepUs us]\<rparr>"
    "\<forall>i. reads w < i \<and> i < n - 1 \<longrightarrow> still_waiting (clock w) us (reads w) i" by blast
  from n(1) have "reads w' = n" by simp
  with n show "w' = w\<lparr>reads := reads w', hist := hist w @ [SleepUs us]\<rparr>" by simp
  fix i
  assume "reads w < i \<and> i < reads w' - 1"
  with n(2) \<open>reads w' = n\<close> show "still_waiting (clock w) us (reads w) i" by simp
next
  assume "ticking (clock w) \<and> sint us < 2 ^ 30"
  with assms(2) show "\<exists>w'. sleep_us us w = Some w'" by (simp add: sleep_us_ticking)
qed

text \<open>
  The theorem above at a concrete input: a delay of 5 on the clock whose \<open>k\<close>-th reading
  is \<open>k\<close> makes the readings 0 to 5.
\<close>

theorem sleep_us_never_undershoots_witness:
  "mono (clock idle_world) \<and> 0 \<le> sint (5 :: 32 word)
   \<and> ticking (clock idle_world) \<and> sint (5 :: 32 word) < 2 ^ 30
   \<and> sleep_us 5 idle_world = Some (idle_world\<lparr>reads := 6, hist := [SleepUs 5]\<rparr>)
   \<and> clock idle_world 0 + 5 \<le> clock idle_world 5
   \<and> still_waiting (clock idle_world) 5 0 4
   \<and> (\<exists>w'. sleep_us 5 idle_world = Some w')"
proof -
  have m: "mono (clock idle_world)" by (simp add: idle_world_def unit_clock_mono)
  have u: "0 \<le> sint (5 :: 32 word)" by simp
  have t: "ticking (clock idle_world)" by (simp add: idle_world_def unit_clock_ticking)
  have b: "sint (5 :: 32 word) < 2 ^ 30" by simp
  have e: "sleep_us 5 idle_world = Some (idle_world\<lparr>reads := 6, hist := [SleepUs 5]\<rparr>)"
    by (simp add: sleep_us_def sleep_us_poll.simps system_timer_current_time_us_def
        idle_world_def unit_clock_def word_sless_alt)
  note th = sleep_us_never_undershoots [OF m u]
  from th e
  have "clock idle_world (reads idle_world) + nat (sint (5 :: 32 word))
          \<le> clock idle_world (reads (idle_world\<lparr>reads := 6, hist := [SleepUs 5]\<rparr>) - 1)
        \<and> (\<forall>i. reads idle_world < i \<and> i < reads (idle_world\<lparr>reads := 6, hist := [SleepUs 5]\<rparr>) - 1
             \<longrightarrow> still_waiting (clock idle_world) 5 (reads idle_world) i)"
    by blast
  then have "clock idle_world 0 + 5 \<le> clock idle_world 5 \<and> still_waiting (clock idle_world) 5 0 4"
    by (simp add: idle_world_def)
  moreover from th t b have "\<exists>w'. sleep_us 5 idle_world = Some w'" by blast
  ultimately show ?thesis using m u t b e by blast
qed

section \<open>What the operations log\<close>

lemma advance_sel:
  assumes "advance w k es w'"
  shows "clock w' = clock w" "line w' = line w" "pin w' = pin w"
    "samples w' = samples w + k" "hist w' = hist w @ es" "reads w \<le> reads w'"
  using assms by (auto simp: advance_def)

lemma advance_trans:
  assumes "advance w k es w1" and "advance w1 k' es' w2"
  shows "advance w (k + k') (es @ es') w2"
proof -
  from assms(1) obtain n where n: "reads w \<le> n"
    "w1 = w\<lparr>reads := n, samples := samples w + k, hist := hist w @ es\<rparr>"
    unfolding advance_def by blast
  from assms(2) obtain n' where n': "reads w1 \<le> n'"
    "w2 = w1\<lparr>reads := n', samples := samples w1 + k', hist := hist w1 @ es'\<rparr>"
    unfolding advance_def by blast
  from n n' have "reads w \<le> n'" by simp
  moreover from n n' have
    "w2 = w\<lparr>reads := n', samples := samples w + (k + k'), hist := hist w @ es @ es'\<rparr>"
    by (simp add: add.assoc)
  ultimately show ?thesis unfolding advance_def by blast
qed

lemma advance_same: "advance w 0 [] w"
  unfolding advance_def by (intro exI [of _ "reads w"]) simp

lemma advance_set: "advance w 0 [SetDigitalValue (pin w) v] (setDigitalValue v w)"
  unfolding advance_def setDigitalValue_def by (intro exI [of _ "reads w"]) simp

lemma advance_get:
  assumes "getDigitalValue w = (v, w')"
  shows "v = line w (samples w)"
    and "advance w 1 [GetDigitalValue (pin w) (line w (samples w))] w'"
proof -
  from assms show "v = line w (samples w)" by (auto simp: getDigitalValue_def Let_def)
  from assms show "advance w 1 [GetDigitalValue (pin w) (line w (samples w))] w'"
    unfolding advance_def getDigitalValue_def Let_def
    by (intro exI [of _ "reads w"]) auto
qed

lemma advance_sleep: "sleep_us us w = Some w' \<Longrightarrow> advance w 0 [SleepUs us] w'"
proof -
  assume "sleep_us us w = Some w'"
  from sleep_us_Some [OF this] obtain n where
    "reads w + 2 \<le> n" "w' = w\<lparr>reads := n, hist := hist w @ [SleepUs us]\<rparr>" by blast
  then show ?thesis unfolding advance_def by (intro exI [of _ n]) simp
qed

lemma advance_set_sleep:
  assumes "sleep_us us (setDigitalValue v w) = Some w'"
  shows "advance w 0 [SetDigitalValue (pin w) v, SleepUs us] w'"
  using advance_trans [OF advance_set advance_sleep [OF assms]] by simp

lemma advance_write_slot:
  assumes "ds18b20WiteByte_slot b w = Some w'"
  shows "advance w 0 (write_slot_events (pin w) b) w'"
proof -
  from assms obtain w1 where
    s1: "sleep_us (if b then 2 else 60) (setDigitalValue False w) = Some w1" and
    s2: "sleep_us (if b then 60 else 2) (setDigitalValue True w1) = Some w'"
    by (auto simp: ds18b20WiteByte_slot_def bind_eq_Some_conv split: if_splits)
  have a1: "advance w 0 [SetDigitalValue (pin w) False, SleepUs (if b then 2 else 60)] w1"
    using s1 by (rule advance_set_sleep)
  have "advance w1 0 [SetDigitalValue (pin w1) True, SleepUs (if b then 60 else 2)] w'"
    using s2 by (rule advance_set_sleep)
  with a1 show ?thesis
    using advance_trans [OF a1] by (simp add: advance_sel(3) [OF a1] write_slot_events_def)
qed

lemma tested_bit: "(drop_bit i (d :: 8 word) AND 1 \<noteq> 0) = bit d i"
  by (simp add: bit_iff_odd_drop_bit and_one_eq mod2_eq_if)

lemma advance_write_loop:
  "ds18b20WiteByte_loop i d w = Some w' \<Longrightarrow>
     advance w 0 (concat (map (\<lambda>j. write_slot_events (pin w) (bit d j)) [i..<8])) w'"
proof (induction i d w rule: ds18b20WiteByte_loop.induct)
  case (1 i d w)
  show ?case
  proof (cases "i < 8")
    case False
    with "1.prems" have "w' = w" by (simp add: ds18b20WiteByte_loop.simps [of i])
    with False show ?thesis by (simp add: advance_same)
  next
    case True
    with "1.prems" obtain w1 where
      s: "ds18b20WiteByte_slot (drop_bit i d AND 1 \<noteq> 0) w = Some w1" and
      l: "ds18b20WiteByte_loop (Suc i) d w1 = Some w'"
      by (auto simp: ds18b20WiteByte_loop.simps [of i] bind_eq_Some_conv)
    have a1: "advance w 0 (write_slot_events (pin w) (bit d i)) w1"
      using advance_write_slot [OF s] by (simp add: tested_bit)
    have "advance w1 0 (concat (map (\<lambda>j. write_slot_events (pin w1) (bit d j)) [Suc i..<8])) w'"
      using True s l by (rule "1.IH")
    from advance_trans [OF a1 this] True show ?thesis
      by (simp add: advance_sel(3) [OF a1] upt_conv_Cons)
  qed
qed

lemma advance_write_byte:
  "ds18b20WiteByte d w = Some w' \<Longrightarrow> advance w 0 (write_byte_events (pin w) d) w'"
  unfolding ds18b20WiteByte_def write_byte_events_def by (rule advance_write_loop)

lemma advance_read_bit:
  assumes "ds18b20ReadBit w = Some (b, w')"
  shows "b = (if line w (samples w) then 1 else 0)"
    and "advance w 1 (read_slot_events (pin w) (line w (samples w))) w'"
proof -
  from assms obtain w1 w2 where
    s1: "sleep_us 2 (setDigitalValue False w) = Some w1" and
    s2: "sleep_us 5 (setDigitalValue True w1) = Some w2" and
    s3': "sleep_us 60 (snd (getDigitalValue w2)) = Some w'" and
    b': "b = (if fst (getDigitalValue w2) then 1 else 0)"
    by (auto simp: ds18b20ReadBit_def bind_eq_Some_conv case_prod_beta)
  define v where "v = fst (getDigitalValue w2)"
  define w3 where "w3 = snd (getDigitalValue w2)"
  have g: "getDigitalValue w2 = (v, w3)" by (simp add: v_def w3_def)
  have s3: "sleep_us 60 w3 = Some w'" using s3' by (simp add: w3_def)
  have b: "b = (if v then 1 else 0)" using b' by (simp add: v_def)
  have a1: "advance w 0 [SetDigitalValue (pin w) False, SleepUs 2] w1"
    using s1 by (rule advance_set_sleep)
  have a2: "advance w1 0 [SetDigitalValue (pin w1) True, SleepUs 5] w2"
    using s2 by (rule advance_set_sleep)
  note a12 = advance_trans [OF a1 a2]
  note a3 = advance_get(2) [OF g]
  note a123 = advance_trans [OF a12 a3]
  note a = advance_trans [OF a123 advance_sleep [OF s3]]
  have v: "v = line w (samples w)"
    using advance_get(1) [OF g] by (simp add: advance_sel [OF a12])
  with b show "b = (if line w (samples w) then 1 else 0)" by simp
  from a show "advance w 1 (read_slot_events (pin w) (line w (samples w))) w'"
    by (simp add: read_slot_events_def advance_sel [OF a1] advance_sel [OF a12])
qed

lemma bit_accumulate:
  assumes "i < 8"
  shows "bit ((d :: 8 word) OR push_bit i (if v then 1 else 0)) j \<longleftrightarrow> bit d j \<or> (j = i \<and> v)"
  using assms by (auto simp: bit_or_iff bit_push_bit_iff bit_1_iff)

lemma advance_read_loop:
  "ds18b20ReadByte_loop i d w = Some (d', w') \<Longrightarrow>
     advance w (8 - i)
       (concat (map (\<lambda>j. read_slot_events (pin w) (line w (samples w + (j - i))) @ [SleepUs 2])
          [i..<8])) w'
     \<and> (\<forall>j. bit d' j \<longleftrightarrow> bit d j \<or> (i \<le> j \<and> j < 8 \<and> line w (samples w + (j - i))))"
proof (induction i d w rule: ds18b20ReadByte_loop.induct)
  case (1 i d w)
  show ?case
  proof (cases "i < 8")
    case False
    with "1.prems" have "w' = w" "d' = d" by (simp_all add: ds18b20ReadByte_loop.simps [of i])
    with False show ?thesis by (auto simp: advance_same)
  next
    case True
    with "1.prems" obtain b w1 w2 where
      r: "ds18b20ReadBit w = Some (b, w1)" and
      s: "sleep_us 2 w1 = Some w2" and
      l: "ds18b20ReadByte_loop (Suc i) (d OR push_bit i b) w2 = Some (d', w')"
      by (auto simp: ds18b20ReadByte_loop.simps [of i] bind_eq_Some_conv split: prod.splits)
    note b = advance_read_bit(1) [OF r]
    note a1 = advance_trans [OF advance_read_bit(2) [OF r] advance_sleep [OF s]]
    have IH: "advance w2 (8 - Suc i)
       (concat (map (\<lambda>j. read_slot_events (pin w2) (line w2 (samples w2 + (j - Suc i))) @ [SleepUs 2])
          [Suc i..<8])) w'
     \<and> (\<forall>j. bit d' j \<longleftrightarrow> bit (d OR push_bit i b) j
            \<or> (Suc i \<le> j \<and> j < 8 \<and> line w2 (samples w2 + (j - Suc i))))"
      using True r refl s l by (rule "1.IH")
    have shift: "\<And>j. Suc i \<le> j \<Longrightarrow> samples w2 + (j - Suc i) = samples w + (j - i)"
      by (simp add: advance_sel [OF a1])
    have ev: "map (\<lambda>j. read_slot_events (pin w2) (line w2 (samples w2 + (j - Suc i))) @ [SleepUs 2])
                [Suc i..<8]
              = map (\<lambda>j. read_slot_events (pin w) (line w (samples w + (j - i))) @ [SleepUs 2])
                [Suc i..<8]"
    proof (rule map_cong [OF refl])
      fix j
      assume "j \<in> set [Suc i..<8]"
      then have "Suc i \<le> j" by simp
      then have "samples w2 + (j - Suc i) = samples w + (j - i)" by (rule shift)
      then show "read_slot_events (pin w2) (line w2 (samples w2 + (j - Suc i))) @ [SleepUs 2]
                 = read_slot_events (pin w) (line w (samples w + (j - i))) @ [SleepUs 2]"
        by (simp only: advance_sel(2,3) [OF a1])
    qed
    from IH have a2: "advance w2 (8 - Suc i)
       (concat (map (\<lambda>j. read_slot_events (pin w) (line w (samples w + (j - i))) @ [SleepUs 2])
          [Suc i..<8])) w'"
      by (simp only: ev)
    have cnt: "1 + 0 + (8 - Suc i) = 8 - i" using True by simp
    have evs: "(read_slot_events (pin w) (line w (samples w)) @ [SleepUs 2])
          @ concat (map (\<lambda>j. read_slot_events (pin w) (line w (samples w + (j - i))) @ [SleepUs 2])
              [Suc i..<8])
        = concat (map (\<lambda>j. read_slot_events (pin w) (line w (samples w + (j - i))) @ [SleepUs 2])
              [i..<8])"
      using True by (simp add: upt_conv_Cons)
    have adv: "advance w (8 - i)
       (concat (map (\<lambda>j. read_slot_events (pin w) (line w (samples w + (j - i))) @ [SleepUs 2])
          [i..<8])) w'"
      using advance_trans [OF a1 a2] by (simp only: cnt evs)
    have bits: "\<forall>j. bit d' j \<longleftrightarrow> bit d j \<or> (i \<le> j \<and> j < 8 \<and> line w (samples w + (j - i)))"
    proof
      fix j
      from IH have "bit d' j \<longleftrightarrow> bit (d OR push_bit i b) j
            \<or> (Suc i \<le> j \<and> j < 8 \<and> line w2 (samples w2 + (j - Suc i)))" by blast
      also have "\<dots> \<longleftrightarrow> (bit d j \<or> (j = i \<and> line w (samples w)))
            \<or> (Suc i \<le> j \<and> j < 8 \<and> line w (samples w + (j - i)))"
        using shift [of j] by (auto simp: b bit_accumulate [OF True] advance_sel [OF a1])
      also have "\<dots> \<longleftrightarrow> bit d j \<or> (i \<le> j \<and> j < 8 \<and> line w (samples w + (j - i)))"
        using True by (cases "j = i") auto
      finally show "bit d' j \<longleftrightarrow> bit d j \<or> (i \<le> j \<and> j < 8 \<and> line w (samples w + (j - i)))" .
    qed
    from adv bits show ?thesis ..
  qed
qed

lemma advance_read_byte:
  assumes "ds18b20ReadByte w = Some (d, w')"
  shows "advance w 8 (read_byte_events (pin w) (\<lambda>j. line w (samples w + j))) w'"
    and "\<forall>j. bit d j \<longleftrightarrow> j < 8 \<and> line w (samples w + j)"
proof -
  from assms obtain w1 where
    l: "ds18b20ReadByte_loop 0 0 w = Some (d, w1)" and s: "sleep_us 2 w1 = Some w'"
    by (auto simp: ds18b20ReadByte_def bind_eq_Some_conv split: prod.splits)
  from advance_read_loop [OF l] have
    a1: "advance w 8
       (concat (map (\<lambda>j. read_slot_events (pin w) (line w (samples w + j)) @ [SleepUs 2])
          [0..<8])) w1"
    and b: "\<forall>j. bit d j \<longleftrightarrow> j < 8 \<and> line w (samples w + j)"
    by simp_all
  from advance_trans [OF a1 advance_sleep [OF s]]
  show "advance w 8 (read_byte_events (pin w) (\<lambda>j. line w (samples w + j))) w'"
    by (simp add: read_byte_events_def)
  from b show "\<forall>j. bit d j \<longleftrightarrow> j < 8 \<and> line w (samples w + j)" .
qed

lemma advance_reset:
  assumes "ds18b20Rest w = Some w'"
  shows "advance w 0 (reset_events (pin w)) w'"
proof -
  from assms obtain w1 where
    s1: "sleep_us 750 (setDigitalValue False w) = Some w1" and
    s2: "sleep_us 15 (setDigitalValue True w1) = Some w'"
    by (auto simp: ds18b20Rest_def bind_eq_Some_conv)
  note a1 = advance_set_sleep [OF s1]
  from advance_trans [OF a1 advance_set_sleep [OF s2]] show ?thesis
    by (simp add: reset_events_def advance_sel(3) [OF a1])
qed

lemma poll_events_Suc:
  "[GetDigitalValue p v, SleepUs 1] @ poll_events p v k = poll_events p v (Suc k)"
  by (simp add: poll_events_def)

lemma check_high_spec:
  "ds18b20Check_high st w = Some (st', w') \<Longrightarrow> st < 200 \<Longrightarrow>
     (\<exists>k. st + int k < 200 \<and> (\<forall>i<k. line w (samples w + i)) \<and> \<not> line w (samples w + k)
          \<and> st' = st + int k
          \<and> advance w (Suc k) (poll_events (pin w) True k @ [GetDigitalValue (pin w) False]) w')
     \<or> (\<exists>k. st + int k = 200 \<and> (\<forall>i<k. line w (samples w + i)) \<and> st' = 200
          \<and> advance w k (poll_events (pin w) True k) w')"
proof (induction st w rule: ds18b20Check_high.induct)
  case (1 st w)
  define v where "v = fst (getDigitalValue w)"
  define w1 where "w1 = snd (getDigitalValue w)"
  have g: "getDigitalValue w = (v, w1)" by (simp add: v_def w1_def)
  note v = advance_get(1) [OF g]
  note a1 = advance_get(2) [OF g]
  show ?case
  proof (cases v)
    case False
    with "1.prems"(1) g have "st' = st" "w' = w1"
      by (simp_all add: ds18b20Check_high.simps [of st w])
    with False v a1 "1.prems"(2) have
      "st + int 0 < 200 \<and> (\<forall>i<0. line w (samples w + i)) \<and> \<not> line w (samples w + 0)
          \<and> st' = st + int 0
          \<and> advance w (Suc 0) (poll_events (pin w) True 0 @ [GetDigitalValue (pin w) False]) w'"
      by (simp add: poll_events_def)
    then show ?thesis by blast
  next
    case True
    with "1.prems"(1) g obtain w2 where
      s: "sleep_us 1 w1 = Some w2" and
      r: "(if 200 \<le> st + 1 then Some (st + 1, w2) else ds18b20Check_high (st + 1) w2)
            = Some (st', w')"
      by (auto simp: ds18b20Check_high.simps [of st w] bind_eq_Some_conv)
    from True v have hi0: "line w (samples w)" by simp
    have a2: "advance w (Suc 0) (poll_events (pin w) True (Suc 0)) w2"
      using advance_trans [OF a1 advance_sleep [OF s]] hi0 by (simp add: poll_events_def)
    show ?thesis
    proof (cases "200 \<le> st + 1")
      case True
      with r "1.prems"(2) have "st' = 200" "w' = w2" "st + int (Suc 0) = 200" by simp_all
      with a2 hi0 have "st + int (Suc 0) = 200 \<and> (\<forall>i<Suc 0. line w (samples w + i)) \<and> st' = 200
          \<and> advance w (Suc 0) (poll_events (pin w) True (Suc 0)) w'" by simp
      then show ?thesis by blast
    next
      case False
      with r have rec: "ds18b20Check_high (st + 1) w2 = Some (st', w')" by simp
      from False have lt: "st + 1 < 200" by simp
      have sh: "\<And>i. samples w2 + i = samples w + Suc i" by (simp add: advance_sel(4) [OF a2])
      from "1.IH" [OF g [symmetric] \<open>v\<close> s False rec lt]
      consider k where "st + 1 + int k < 200" "\<forall>i<k. line w2 (samples w2 + i)"
          "\<not> line w2 (samples w2 + k)" "st' = st + 1 + int k"
          "advance w2 (Suc k) (poll_events (pin w2) True k @ [GetDigitalValue (pin w2) False]) w'"
        | k where "st + 1 + int k = 200" "\<forall>i<k. line w2 (samples w2 + i)" "st' = 200"
          "advance w2 k (poll_events (pin w2) True k) w'"
        by blast
      then show ?thesis
      proof cases
        case 1
        from 1(2) hi0 have all: "\<forall>i<Suc k. line w (samples w + i)"
          by (auto simp: sh advance_sel(2) [OF a2] less_Suc_eq_0_disj)
        from 1(3) have low: "\<not> line w (samples w + Suc k)"
          by (simp add: sh advance_sel(2) [OF a2])
        from advance_trans [OF a2 1(5)] have
          "advance w (Suc (Suc k))
             (poll_events (pin w) True (Suc k) @ [GetDigitalValue (pin w) False]) w'"
          by (simp add: advance_sel(3) [OF a2] poll_events_def)
        with all low 1(1,4) have
          "st + int (Suc k) < 200 \<and> (\<forall>i<Suc k. line w (samples w + i))
           \<and> \<not> line w (samples w + Suc k) \<and> st' = st + int (Suc k)
           \<and> advance w (Suc (Suc k))
               (poll_events (pin w) True (Suc k) @ [GetDigitalValue (pin w) False]) w'"
          by simp
        then show ?thesis by blast
      next
        case 2
        from 2(2) hi0 have all: "\<forall>i<Suc k. line w (samples w + i)"
          by (auto simp: sh advance_sel(2) [OF a2] less_Suc_eq_0_disj)
        from advance_trans [OF a2 2(4)] have
          "advance w (Suc k) (poll_events (pin w) True (Suc k)) w'"
          by (simp add: advance_sel(3) [OF a2] poll_events_def)
        with all 2(1,3) have
          "st + int (Suc k) = 200 \<and> (\<forall>i<Suc k. line w (samples w + i)) \<and> st' = 200
           \<and> advance w (Suc k) (poll_events (pin w) True (Suc k)) w'"
          by simp
        then show ?thesis by blast
      qed
    qed
  qed
qed

lemma check_low_spec:
  "ds18b20Check_low st w = Some (st', w') \<Longrightarrow> st < 240 \<Longrightarrow>
     (\<exists>k. st + int k < 240 \<and> (\<forall>i<k. \<not> line w (samples w + i)) \<and> line w (samples w + k)
          \<and> st' = st + int k
          \<and> advance w (Suc k) (poll_events (pin w) False k @ [GetDigitalValue (pin w) True]) w')
     \<or> (\<exists>k. st + int k = 240 \<and> (\<forall>i<k. \<not> line w (samples w + i)) \<and> st' = 240
          \<and> advance w k (poll_events (pin w) False k) w')"
proof (induction st w rule: ds18b20Check_low.induct)
  case (1 st w)
  define v where "v = fst (getDigitalValue w)"
  define w1 where "w1 = snd (getDigitalValue w)"
  have g: "getDigitalValue w = (v, w1)" by (simp add: v_def w1_def)
  note v = advance_get(1) [OF g]
  note a1 = advance_get(2) [OF g]
  show ?case
  proof (cases "\<not> v")
    case False
    with "1.prems"(1) g have "st' = st" "w' = w1"
      by (simp_all add: ds18b20Check_low.simps [of st w])
    with False v a1 "1.prems"(2) have
      "st + int 0 < 240 \<and> (\<forall>i<0. \<not> line w (samples w + i)) \<and> line w (samples w + 0)
          \<and> st' = st + int 0
          \<and> advance w (Suc 0) (poll_events (pin w) False 0 @ [GetDigitalValue (pin w) True]) w'"
      by (simp add: poll_events_def)
    then show ?thesis by blast
  next
    case True
    with "1.prems"(1) g obtain w2 where
      s: "sleep_us 1 w1 = Some w2" and
      r: "(if 240 \<le> st + 1 then Some (st + 1, w2) else ds18b20Check_low (st + 1) w2)
            = Some (st', w')"
      by (auto simp: ds18b20Check_low.simps [of st w] bind_eq_Some_conv)
    from True v have hi0: "\<not> line w (samples w)" by simp
    have a2: "advance w (Suc 0) (poll_events (pin w) False (Suc 0)) w2"
      using advance_trans [OF a1 advance_sleep [OF s]] hi0 by (simp add: poll_events_def)
    show ?thesis
    proof (cases "240 \<le> st + 1")
      case True
      with r "1.prems"(2) have "st' = 240" "w' = w2" "st + int (Suc 0) = 240" by simp_all
      with a2 hi0 have "st + int (Suc 0) = 240 \<and> (\<forall>i<Suc 0. \<not> line w (samples w + i)) \<and> st' = 240
          \<and> advance w (Suc 0) (poll_events (pin w) False (Suc 0)) w'" by simp
      then show ?thesis by blast
    next
      case False
      with r have rec: "ds18b20Check_low (st + 1) w2 = Some (st', w')" by simp
      from False have lt: "st + 1 < 240" by simp
      have sh: "\<And>i. samples w2 + i = samples w + Suc i" by (simp add: advance_sel(4) [OF a2])
      from "1.IH" [OF g [symmetric] \<open>\<not> v\<close> s False rec lt]
      consider k where "st + 1 + int k < 240" "\<forall>i<k. \<not> line w2 (samples w2 + i)"
          "line w2 (samples w2 + k)" "st' = st + 1 + int k"
          "advance w2 (Suc k) (poll_events (pin w2) False k @ [GetDigitalValue (pin w2) True]) w'"
        | k where "st + 1 + int k = 240" "\<forall>i<k. \<not> line w2 (samples w2 + i)" "st' = 240"
          "advance w2 k (poll_events (pin w2) False k) w'"
        by blast
      then show ?thesis
      proof cases
        case 1
        from 1(2) hi0 have all: "\<forall>i<Suc k. \<not> line w (samples w + i)"
          by (auto simp: sh advance_sel(2) [OF a2] less_Suc_eq_0_disj)
        from 1(3) have low: "line w (samples w + Suc k)"
          by (simp add: sh advance_sel(2) [OF a2])
        from advance_trans [OF a2 1(5)] have
          "advance w (Suc (Suc k))
             (poll_events (pin w) False (Suc k) @ [GetDigitalValue (pin w) True]) w'"
          by (simp add: advance_sel(3) [OF a2] poll_events_def)
        with all low 1(1,4) have
          "st + int (Suc k) < 240 \<and> (\<forall>i<Suc k. \<not> line w (samples w + i))
           \<and> line w (samples w + Suc k) \<and> st' = st + int (Suc k)
           \<and> advance w (Suc (Suc k))
               (poll_events (pin w) False (Suc k) @ [GetDigitalValue (pin w) True]) w'"
          by simp
        then show ?thesis by blast
      next
        case 2
        from 2(2) hi0 have all: "\<forall>i<Suc k. \<not> line w (samples w + i)"
          by (auto simp: sh advance_sel(2) [OF a2] less_Suc_eq_0_disj)
        from advance_trans [OF a2 2(4)] have
          "advance w (Suc k) (poll_events (pin w) False (Suc k)) w'"
          by (simp add: advance_sel(3) [OF a2] poll_events_def)
        with all 2(1,3) have
          "st + int (Suc k) = 240 \<and> (\<forall>i<Suc k. \<not> line w (samples w + i)) \<and> st' = 240
           \<and> advance w (Suc k) (poll_events (pin w) False (Suc k)) w'"
          by simp
        then show ?thesis by blast
      qed
    qed
  qed
qed

lemma check_spec:
  assumes "ds18b20Check w = Some (ok, w')"
  shows "((\<forall>i<200. line w (samples w + i)) \<and> \<not> ok
           \<and> advance w 200 (poll_events (pin w) True 200) w')
       \<or> (\<exists>k<200. (\<forall>i<k. line w (samples w + i)) \<and> \<not> line w (samples w + k)
             \<and> (\<forall>i<240. \<not> line w (samples w + Suc k + i)) \<and> \<not> ok
             \<and> advance w (Suc k + 240)
                 ((poll_events (pin w) True k @ [GetDigitalValue (pin w) False])
                  @ poll_events (pin w) False 240) w')
       \<or> (\<exists>k<200. \<exists>j<240. (\<forall>i<k. line w (samples w + i)) \<and> \<not> line w (samples w + k)
             \<and> (\<forall>i<j. \<not> line w (samples w + Suc k + i)) \<and> line w (samples w + Suc k + j) \<and> ok
             \<and> advance w (Suc k + Suc j)
                 ((poll_events (pin w) True k @ [GetDigitalValue (pin w) False])
                  @ poll_events (pin w) False j @ [GetDigitalValue (pin w) True]) w')"
proof -
  from assms obtain r1 where r1: "ds18b20Check_high 0 w = Some r1"
    by (cases "ds18b20Check_high 0 w") (simp_all add: ds18b20Check_def)
  obtain st1 w1 where r1': "r1 = (st1, w1)" by (cases r1)
  from r1 r1' have high: "ds18b20Check_high 0 w = Some (st1, w1)" by simp
  from assms high have
    rest: "(if 200 \<le> st1 then Some (False, w1)
            else ds18b20Check_low 0 w1 \<bind>
                   (\<lambda>(state, w). if 240 \<le> state then Some (False, w) else Some (True, w)))
           = Some (ok, w')"
    by (simp add: ds18b20Check_def)
  from check_high_spec [OF high] have
    "(\<exists>k. int k < 200 \<and> (\<forall>i<k. line w (samples w + i)) \<and> \<not> line w (samples w + k)
          \<and> st1 = int k
          \<and> advance w (Suc k) (poll_events (pin w) True k @ [GetDigitalValue (pin w) False]) w1)
     \<or> (\<exists>k. int k = 200 \<and> (\<forall>i<k. line w (samples w + i)) \<and> st1 = 200
          \<and> advance w k (poll_events (pin w) True k) w1)"
    by simp
  then consider k where "int k < 200" "\<forall>i<k. line w (samples w + i)" "\<not> line w (samples w + k)"
      "st1 = int k"
      "advance w (Suc k) (poll_events (pin w) True k @ [GetDigitalValue (pin w) False]) w1"
    | k where "int k = 200" "\<forall>i<k. line w (samples w + i)" "st1 = 200"
      "advance w k (poll_events (pin w) True k) w1"
    by blast
  then show ?thesis
  proof cases
    case 2
    from 2(1) have k: "k = 200" by simp
    from rest 2(3) have "\<not> ok" "w' = w1" by simp_all
    with 2(2,4) k show ?thesis by simp
  next
    case 1
    from 1(1) have k: "k < 200" by simp
    note a1 = 1(5)
    from rest 1(1,4) have rest': "ds18b20Check_low 0 w1 \<bind>
                   (\<lambda>(state, w). if 240 \<le> state then Some (False, w) else Some (True, w))
           = Some (ok, w')" by simp
    then obtain r2 where r2: "ds18b20Check_low 0 w1 = Some r2"
      by (cases "ds18b20Check_low 0 w1") simp_all
    obtain st2 w2 where r2': "r2 = (st2, w2)" by (cases r2)
    from rest' r2 r2' have "w' = w2" and ok: "ok \<longleftrightarrow> \<not> 240 \<le> st2"
      by (auto split: if_splits)
    with r2 r2' have low: "ds18b20Check_low 0 w1 = Some (st2, w')" by simp
    have sh: "\<And>i. samples w1 + i = samples w + Suc k + i" by (simp add: advance_sel(4) [OF a1])
    from check_low_spec [OF low] have
      "(\<exists>j. int j < 240 \<and> (\<forall>i<j. \<not> line w1 (samples w1 + i)) \<and> line w1 (samples w1 + j)
          \<and> st2 = int j
          \<and> advance w1 (Suc j) (poll_events (pin w1) False j @ [GetDigitalValue (pin w1) True]) w')
       \<or> (\<exists>j. int j = 240 \<and> (\<forall>i<j. \<not> line w1 (samples w1 + i)) \<and> st2 = 240
          \<and> advance w1 j (poll_events (pin w1) False j) w')"
      by simp
    then consider j where "int j < 240" "\<forall>i<j. \<not> line w1 (samples w1 + i)" "line w1 (samples w1 + j)"
        "st2 = int j"
        "advance w1 (Suc j) (poll_events (pin w1) False j @ [GetDigitalValue (pin w1) True]) w'"
      | j where "int j = 240" "\<forall>i<j. \<not> line w1 (samples w1 + i)" "st2 = 240"
        "advance w1 j (poll_events (pin w1) False j) w'"
      by blast
    then show ?thesis
    proof cases
      case 1
      note b = 1
      from b(1) have j: "j < 240" by simp
      from b(2) have l1: "\<forall>i<j. \<not> line w (samples w + Suc k + i)"
        by (simp add: sh advance_sel(2) [OF a1])
      from b(3) have l2: "line w (samples w + Suc k + j)"
        by (simp add: sh advance_sel(2) [OF a1])
      from ok b(1,4) have "ok" by simp
      moreover from advance_trans [OF a1 b(5)] have
        "advance w (Suc k + Suc j)
                 ((poll_events (pin w) True k @ [GetDigitalValue (pin w) False])
                  @ poll_events (pin w) False j @ [GetDigitalValue (pin w) True]) w'"
        by (simp only: advance_sel(3) [OF a1])
      ultimately have "\<exists>j<240. (\<forall>i<k. line w (samples w + i)) \<and> \<not> line w (samples w + k)
             \<and> (\<forall>i<j. \<not> line w (samples w + Suc k + i)) \<and> line w (samples w + Suc k + j) \<and> ok
             \<and> advance w (Suc k + Suc j)
                 ((poll_events (pin w) True k @ [GetDigitalValue (pin w) False])
                  @ poll_events (pin w) False j @ [GetDigitalValue (pin w) True]) w'"
        using j l1 l2 \<open>\<forall>i<k. line w (samples w + i)\<close> \<open>\<not> line w (samples w + k)\<close> by blast
      with k show ?thesis by blast
    next
      case 2
      note b = 2
      from b(1) have j: "j = 240" by simp
      from b(2) j have l1: "\<forall>i<240. \<not> line w (samples w + Suc k + i)"
        by (simp add: sh advance_sel(2) [OF a1])
      from ok b(3) have "\<not> ok" by simp
      moreover from advance_trans [OF a1 b(4)] j have
        "advance w (Suc k + 240)
                 ((poll_events (pin w) True k @ [GetDigitalValue (pin w) False])
                  @ poll_events (pin w) False 240) w'"
        by (simp only: advance_sel(3) [OF a1])
      ultimately have "(\<forall>i<k. line w (samples w + i)) \<and> \<not> line w (samples w + k)
             \<and> (\<forall>i<240. \<not> line w (samples w + Suc k + i)) \<and> \<not> ok
             \<and> advance w (Suc k + 240)
                 ((poll_events (pin w) True k @ [GetDigitalValue (pin w) False])
                  @ poll_events (pin w) False 240) w'"
        using l1 \<open>\<forall>i<k. line w (samples w + i)\<close> \<open>\<not> line w (samples w + k)\<close> by blast
      with k show ?thesis by blast
    qed
  qed
qed

section \<open>Every operation returns on a ticking clock\<close>

lemma returns_sleep:
  assumes "ticking (clock w)" and "us \<in> {1, 2, 5, 15, 60, 100, 750}"
  obtains w' where "sleep_us us w = Some w'" and "ticking (clock w')"
proof -
  from assms(2) have "0 \<le> sint us \<and> sint us < 2 ^ 30" by auto
  with assms(1) obtain w' where s: "sleep_us us w = Some w'"
    using sleep_us_ticking by blast
  from advance_sel(1) [OF advance_sleep [OF s]] assms(1) have "ticking (clock w')" by simp
  with s show thesis by (rule that)
qed

lemma returns_set_sleep:
  assumes "ticking (clock w)" and "us \<in> {1, 2, 5, 15, 60, 100, 750}"
  obtains w' where "sleep_us us (setDigitalValue v w) = Some w'" and "ticking (clock w')"
proof -
  from assms(1) have "ticking (clock (setDigitalValue v w))" by (simp add: setDigitalValue_def)
  then show thesis using assms(2) by (rule returns_sleep) (rule that)
qed

lemma returns_write_slot:
  assumes "ticking (clock w)"
  obtains w' where "ds18b20WiteByte_slot b w = Some w'" and "ticking (clock w')"
proof -
  from assms obtain w1 where
    s1: "sleep_us (if b then 2 else 60) (setDigitalValue False w) = Some w1" and t1: "ticking (clock w1)"
    by (rule returns_set_sleep [where us = "if b then 2 else 60"]) simp_all
  from t1 obtain w2 where
    s2: "sleep_us (if b then 60 else 2) (setDigitalValue True w1) = Some w2" and t2: "ticking (clock w2)"
    by (rule returns_set_sleep [where us = "if b then 60 else 2"]) simp_all
  from s1 s2 have "ds18b20WiteByte_slot b w = Some w2"
    by (cases b) (simp_all add: ds18b20WiteByte_slot_def)
  then show thesis using t2 by (rule that)
qed

lemma returns_write_loop:
  "ticking (clock w) \<Longrightarrow> \<exists>w'. ds18b20WiteByte_loop i d w = Some w' \<and> ticking (clock w')"
proof (induction i d w rule: ds18b20WiteByte_loop.induct)
  case (1 i d w)
  show ?case
  proof (cases "i < 8")
    case False
    with "1.prems" show ?thesis by (simp add: ds18b20WiteByte_loop.simps [of i])
  next
    case True
    from "1.prems" obtain w1 where
      s: "ds18b20WiteByte_slot (drop_bit i d AND 1 \<noteq> 0) w = Some w1" and t1: "ticking (clock w1)"
      by (rule returns_write_slot)
    from "1.IH" [OF True s t1] obtain w' where
      "ds18b20WiteByte_loop (Suc i) d w1 = Some w'" "ticking (clock w')" by blast
    with True s show ?thesis by (simp add: ds18b20WiteByte_loop.simps [of i])
  qed
qed

lemma returns_write_byte:
  assumes "ticking (clock w)"
  obtains w' where "ds18b20WiteByte d w = Some w'" and "ticking (clock w')"
  using returns_write_loop [OF assms, of 0 d] unfolding ds18b20WiteByte_def by blast

lemma returns_read_bit:
  assumes "ticking (clock w)"
  obtains b w' where "ds18b20ReadBit w = Some (b, w')" and "ticking (clock w')"
proof -
  from assms obtain w1 where
    s1: "sleep_us 2 (setDigitalValue False w) = Some w1" and t1: "ticking (clock w1)"
    by (rule returns_set_sleep [where us = 2]) simp_all
  from t1 obtain w2 where
    s2: "sleep_us 5 (setDigitalValue True w1) = Some w2" and t2: "ticking (clock w2)"
    by (rule returns_set_sleep [where us = 5]) simp_all
  from t2 have "ticking (clock (snd (getDigitalValue w2)))"
    by (simp add: getDigitalValue_def Let_def)
  then obtain w4 where
    s3: "sleep_us 60 (snd (getDigitalValue w2)) = Some w4" and t4: "ticking (clock w4)"
    by (rule returns_sleep [where us = 60]) simp_all
  from s1 s2 s3 have
    "ds18b20ReadBit w = Some (if fst (getDigitalValue w2) then 1 else 0, w4)"
    by (simp add: ds18b20ReadBit_def case_prod_beta)
  then show thesis using t4 by (rule that)
qed

lemma returns_read_loop:
  "ticking (clock w) \<Longrightarrow> \<exists>d' w'. ds18b20ReadByte_loop i d w = Some (d', w') \<and> ticking (clock w')"
proof (induction i d w rule: ds18b20ReadByte_loop.induct)
  case (1 i d w)
  show ?case
  proof (cases "i < 8")
    case False
    with "1.prems" show ?thesis by (simp add: ds18b20ReadByte_loop.simps [of i])
  next
    case True
    from "1.prems" obtain b w1 where
      r: "ds18b20ReadBit w = Some (b, w1)" and t1: "ticking (clock w1)"
      by (rule returns_read_bit)
    from t1 obtain w2 where s: "sleep_us 2 w1 = Some w2" and t2: "ticking (clock w2)"
      by (rule returns_sleep [where us = 2]) simp_all
    from "1.IH" [OF True r refl s t2] obtain d' w' where
      "ds18b20ReadByte_loop (Suc i) (d OR push_bit i b) w2 = Some (d', w')" "ticking (clock w')"
      by blast
    with True r s show ?thesis by (simp add: ds18b20ReadByte_loop.simps [of i])
  qed
qed

lemma returns_read_byte:
  assumes "ticking (clock w)"
  obtains d w' where "ds18b20ReadByte w = Some (d, w')" and "ticking (clock w')"
proof -
  from returns_read_loop [OF assms, of 0 0] obtain d w1 where
    l: "ds18b20ReadByte_loop 0 0 w = Some (d, w1)" and t1: "ticking (clock w1)" by blast
  from t1 obtain w2 where s: "sleep_us 2 w1 = Some w2" and t2: "ticking (clock w2)"
    by (rule returns_sleep [where us = 2]) simp_all
  from l s have "ds18b20ReadByte w = Some (d, w2)" by (simp add: ds18b20ReadByte_def)
  then show thesis using t2 by (rule that)
qed

lemma returns_reset:
  assumes "ticking (clock w)"
  obtains w' where "ds18b20Rest w = Some w'" and "ticking (clock w')"
proof -
  from assms obtain w1 where
    s1: "sleep_us 750 (setDigitalValue False w) = Some w1" and t1: "ticking (clock w1)"
    by (rule returns_set_sleep [where us = 750]) simp_all
  from t1 obtain w2 where
    s2: "sleep_us 15 (setDigitalValue True w1) = Some w2" and t2: "ticking (clock w2)"
    by (rule returns_set_sleep [where us = 15]) simp_all
  from s1 s2 have "ds18b20Rest w = Some w2" by (simp add: ds18b20Rest_def)
  then show thesis using t2 by (rule that)
qed

lemma returns_check_high:
  "ticking (clock w) \<Longrightarrow> \<exists>st' w'. ds18b20Check_high st w = Some (st', w') \<and> ticking (clock w')"
proof (induction st w rule: ds18b20Check_high.induct)
  case (1 st w)
  define v where "v = fst (getDigitalValue w)"
  define w1 where "w1 = snd (getDigitalValue w)"
  have g: "getDigitalValue w = (v, w1)" by (simp add: v_def w1_def)
  from "1.prems" have t1: "ticking (clock w1)"
    by (simp add: w1_def getDigitalValue_def Let_def)
  show ?case
  proof (cases v)
    case False
    with g t1 show ?thesis by (simp add: ds18b20Check_high.simps [of st w])
  next
    case True
    from t1 obtain w2 where s: "sleep_us 1 w1 = Some w2" and t2: "ticking (clock w2)"
      by (rule returns_sleep [where us = 1]) simp_all
    show ?thesis
    proof (cases "200 \<le> st + 1")
      case True
      with \<open>v\<close> g s t2 show ?thesis by (simp add: ds18b20Check_high.simps [of st w])
    next
      case False
      from "1.IH" [OF g [symmetric] \<open>v\<close> s False t2] obtain st' w' where
        "ds18b20Check_high (st + 1) w2 = Some (st', w')" "ticking (clock w')" by blast
      with False \<open>v\<close> g s show ?thesis by (simp add: ds18b20Check_high.simps [of st w])
    qed
  qed
qed

lemma returns_check_low:
  "ticking (clock w) \<Longrightarrow> \<exists>st' w'. ds18b20Check_low st w = Some (st', w') \<and> ticking (clock w')"
proof (induction st w rule: ds18b20Check_low.induct)
  case (1 st w)
  define v where "v = fst (getDigitalValue w)"
  define w1 where "w1 = snd (getDigitalValue w)"
  have g: "getDigitalValue w = (v, w1)" by (simp add: v_def w1_def)
  from "1.prems" have t1: "ticking (clock w1)"
    by (simp add: w1_def getDigitalValue_def Let_def)
  show ?case
  proof (cases "\<not> v")
    case False
    with g t1 show ?thesis by (simp add: ds18b20Check_low.simps [of st w])
  next
    case True
    from t1 obtain w2 where s: "sleep_us 1 w1 = Some w2" and t2: "ticking (clock w2)"
      by (rule returns_sleep [where us = 1]) simp_all
    show ?thesis
    proof (cases "240 \<le> st + 1")
      case True
      with \<open>\<not> v\<close> g s t2 show ?thesis by (simp add: ds18b20Check_low.simps [of st w])
    next
      case False
      from "1.IH" [OF g [symmetric] \<open>\<not> v\<close> s False t2] obtain st' w' where
        "ds18b20Check_low (st + 1) w2 = Some (st', w')" "ticking (clock w')" by blast
      with False \<open>\<not> v\<close> g s show ?thesis by (simp add: ds18b20Check_low.simps [of st w])
    qed
  qed
qed

lemma returns_check:
  assumes "ticking (clock w)"
  obtains ok w' where "ds18b20Check w = Some (ok, w')" and "ticking (clock w')"
proof -
  from returns_check_high [OF assms, of 0] obtain st1 w1 where
    h: "ds18b20Check_high 0 w = Some (st1, w1)" and t1: "ticking (clock w1)" by blast
  show thesis
  proof (cases "200 \<le> st1")
    case True
    with h have "ds18b20Check w = Some (False, w1)" by (simp add: ds18b20Check_def)
    then show thesis using t1 by (rule that)
  next
    case False
    from returns_check_low [OF t1, of 0] obtain st2 w2 where
      l: "ds18b20Check_low 0 w1 = Some (st2, w2)" and t2: "ticking (clock w2)" by blast
    from False h l have "ds18b20Check w = Some (\<not> 240 \<le> st2, w2)"
      by (simp add: ds18b20Check_def)
    then show thesis using t2 by (rule that)
  qed
qed

section \<open>The presence check\<close>

lemma first_low_unique:
  assumes "\<forall>i<k. P i" "\<not> P k" "\<forall>i<k'. P i" "\<not> P k'"
  shows "k = (k' :: nat)"
  using assms by (metis nat_neq_iff)

lemma poll_events_count: "count_list (poll_events p v k) (SleepUs 1) = k"
  by (induction k) (simp_all add: poll_events_def)

lemma poll_events_set:
  "e \<in> set (poll_events p v k) \<Longrightarrow> e = SleepUs 1 \<or> e = GetDigitalValue p v"
  by (induction k) (auto simp: poll_events_def)

lemma count_list_append: "count_list (xs @ ys) x = count_list xs x + count_list ys x"
  by (induction xs) simp_all

lemma check_bounds:
  assumes "ds18b20Check w = Some (ok, w')"
  shows "\<exists>es. hist w' = hist w @ es \<and> count_list es (SleepUs 1) \<le> 440
           \<and> (\<forall>e\<in>set es. e = SleepUs 1 \<or> (\<exists>v. e = GetDigitalValue (pin w) v))
           \<and> samples w' \<le> samples w + 440"
proof -
  from check_spec [OF assms]
  consider "advance w 200 (poll_events (pin w) True 200) w'"
    | k where "k < 200" "advance w (Suc k + 240)
                 ((poll_events (pin w) True k @ [GetDigitalValue (pin w) False])
                  @ poll_events (pin w) False 240) w'"
    | k j where "k < 200" "j < 240" "advance w (Suc k + Suc j)
                 ((poll_events (pin w) True k @ [GetDigitalValue (pin w) False])
                  @ poll_events (pin w) False j @ [GetDigitalValue (pin w) True]) w'"
    by blast
  then show ?thesis
  proof cases
    case 1
    show ?thesis
      by (rule exI [of _ "poll_events (pin w) True 200"])
        (auto simp: advance_sel [OF 1] poll_events_count dest: poll_events_set)
  next
    case 2
    show ?thesis
      by (rule exI [of _ "(poll_events (pin w) True k @ [GetDigitalValue (pin w) False])
                  @ poll_events (pin w) False 240"])
        (use 2(1) in \<open>auto simp: advance_sel [OF 2(2)] poll_events_count count_list_append
            dest: poll_events_set\<close>)
  next
    case 3
    show ?thesis
      by (rule exI [of _ "(poll_events (pin w) True k @ [GetDigitalValue (pin w) False])
                  @ poll_events (pin w) False j @ [GetDigitalValue (pin w) True]"])
        (use 3(1,2) in \<open>auto simp: advance_sel [OF 3(3)] poll_events_count count_list_append
            dest: poll_events_set\<close>)
  qed
qed

lemma check_result:
  assumes "ds18b20Check w = Some (ok, w')"
  shows "ok \<longleftrightarrow> (\<exists>k<200. (\<forall>i<k. line w (samples w + i)) \<and> \<not> line w (samples w + k)
                  \<and> (\<exists>j<240. line w (samples w + Suc k + j)))"
proof
  assume ok
  with check_spec [OF assms] obtain k j where "k < 200" "j < 240"
    "\<forall>i<k. line w (samples w + i)" "\<not> line w (samples w + k)" "line w (samples w + Suc k + j)"
    by blast
  then show "\<exists>k<200. (\<forall>i<k. line w (samples w + i)) \<and> \<not> line w (samples w + k)
                  \<and> (\<exists>j<240. line w (samples w + Suc k + j))" by blast
next
  assume "\<exists>k<200. (\<forall>i<k. line w (samples w + i)) \<and> \<not> line w (samples w + k)
                  \<and> (\<exists>j<240. line w (samples w + Suc k + j))"
  then obtain k j where kj: "k < 200" "\<forall>i<k. line w (samples w + i)" "\<not> line w (samples w + k)"
    "j < 240" "line w (samples w + Suc k + j)" by blast
  show ok
  proof (rule ccontr)
    assume "\<not> ok"
    with check_spec [OF assms]
    consider "\<forall>i<200. line w (samples w + i)"
      | k' where "k' < 200" "\<forall>i<k'. line w (samples w + i)" "\<not> line w (samples w + k')"
          "\<forall>i<240. \<not> line w (samples w + Suc k' + i)"
      by blast
    then show False
    proof cases
      case 1
      with kj(1,3) show False by blast
    next
      case 2
      from kj(2,3) 2(2,3) have "k = k'" by (rule first_low_unique)
      with 2(4) kj(4,5) show False by blast
    qed
  qed
qed

text \<open>
  C4: whatever levels the line shows, the result of the presence check is determined by
  the samples \<open>line w (samples w + i)\<close> it takes, one per polling tick. If the first 200
  samples are high the result is false. If the line first reads low at sample \<open>k < 200\<close>
  and the 240 samples after it are low, the result is false. The result is true exactly
  when the line first reads low at some sample \<open>k < 200\<close> and reads high again at one of
  the 240 samples after it. The check takes at most 440 samples and makes at most 440
  delays of 1 microsecond, does nothing else, and returns on every ticking clock.
\<close>

theorem ds18b20Check_presence:
  "(\<forall>ok w'. ds18b20Check w = Some (ok, w') \<longrightarrow>
      ((\<forall>i<200. line w (samples w + i)) \<longrightarrow> \<not> ok)
    \<and> (\<forall>k<200. (\<forall>i<k. line w (samples w + i)) \<and> \<not> line w (samples w + k)
           \<and> (\<forall>i<240. \<not> line w (samples w + Suc k + i)) \<longrightarrow> \<not> ok)
    \<and> (ok \<longleftrightarrow> (\<exists>k<200. (\<forall>i<k. line w (samples w + i)) \<and> \<not> line w (samples w + k)
                  \<and> (\<exists>j<240. line w (samples w + Suc k + j))))
    \<and> (\<exists>es. hist w' = hist w @ es \<and> count_list es (SleepUs 1) \<le> 440
           \<and> (\<forall>e\<in>set es. e = SleepUs 1 \<or> (\<exists>v. e = GetDigitalValue (pin w) v))
           \<and> samples w' \<le> samples w + 440))
   \<and> (ticking (clock w) \<longrightarrow> (\<exists>ok w'. ds18b20Check w = Some (ok, w')))"
proof (intro conjI allI impI)
  fix ok w'
  assume c: "ds18b20Check w = Some (ok, w')"
  note r = check_result [OF c]
  show "ok \<longleftrightarrow> (\<exists>k<200. (\<forall>i<k. line w (samples w + i)) \<and> \<not> line w (samples w + k)
                  \<and> (\<exists>j<240. line w (samples w + Suc k + j)))" by (rule r)
  show "\<exists>es. hist w' = hist w @ es \<and> count_list es (SleepUs 1) \<le> 440
           \<and> (\<forall>e\<in>set es. e = SleepUs 1 \<or> (\<exists>v. e = GetDigitalValue (pin w) v))
           \<and> samples w' \<le> samples w + 440" using c by (rule check_bounds)
  {
    assume "\<forall>i<200. line w (samples w + i)"
    then show "\<not> ok" unfolding r by blast
  }
  {
    fix k
    assume "k < 200"
      and "(\<forall>i<k. line w (samples w + i)) \<and> \<not> line w (samples w + k)
           \<and> (\<forall>i<240. \<not> line w (samples w + Suc k + i))"
    then have k: "\<forall>i<k. line w (samples w + i)" "\<not> line w (samples w + k)"
      "\<forall>i<240. \<not> line w (samples w + Suc k + i)" by blast+
    show "\<not> ok"
    proof
      assume ok
      with r obtain k' j where k': "\<forall>i<k'. line w (samples w + i)" "\<not> line w (samples w + k')"
        "j < 240" "line w (samples w + Suc k' + j)" by blast
      from k(1,2) k'(1,2) have "k = k'" by (rule first_low_unique)
      with k(3) k'(3,4) show False by blast
    qed
  }
next
  assume "ticking (clock w)"
  then obtain ok w' where "ds18b20Check w = Some (ok, w')" by (rule returns_check)
  then show "\<exists>ok w'. ds18b20Check w = Some (ok, w')" by blast
qed

lemma blink_check:
  "ds18b20Check blink_world
     = Some (True, blink_world\<lparr>reads := 4, samples := 4,
          hist := [GetDigitalValue P8 True, SleepUs 1, GetDigitalValue P8 False,
                   GetDigitalValue P8 False, SleepUs 1, GetDigitalValue P8 True]\<rparr>)"
  by (simp add: ds18b20Check_def ds18b20Check_high.simps ds18b20Check_low.simps
      getDigitalValue_def sleep_us_def sleep_us_poll.simps system_timer_current_time_us_def
      blink_world_def unit_clock_def word_sless_alt)

text \<open>
  The theorem above on three lines. On the line that reads high, low, low, high the
  check succeeds after four samples; on the line that always reads high and on the line
  that always reads low it returns false.
\<close>

theorem ds18b20Check_presence_witness:
  "ds18b20Check blink_world
     = Some (True, blink_world\<lparr>reads := 4, samples := 4,
          hist := [GetDigitalValue P8 True, SleepUs 1, GetDigitalValue P8 False,
                   GetDigitalValue P8 False, SleepUs 1, GetDigitalValue P8 True]\<rparr>)
   \<and> (\<exists>k<200. (\<forall>i<k. line blink_world (samples blink_world + i))
          \<and> \<not> line blink_world (samples blink_world + k)
          \<and> (\<exists>j<240. line blink_world (samples blink_world + Suc k + j)))
   \<and> ticking (clock blink_world)
   \<and> (\<exists>w'. ds18b20Check idle_world = Some (False, w'))
   \<and> (\<exists>w'. ds18b20Check stuck_world = Some (False, w'))"
proof -
  from ds18b20Check_presence [of blink_world, THEN conjunct1, rule_format, OF blink_check]
  have 1: "\<exists>k<200. (\<forall>i<k. line blink_world (samples blink_world + i))
          \<and> \<not> line blink_world (samples blink_world + k)
          \<and> (\<exists>j<240. line blink_world (samples blink_world + Suc k + j))"
    by blast
  have 2: "ticking (clock blink_world)"
    by (simp add: blink_world_def unit_clock_ticking)
  have "ticking (clock idle_world)" by (simp add: idle_world_def unit_clock_ticking)
  with ds18b20Check_presence [of idle_world, THEN conjunct2]
  obtain ok w' where c: "ds18b20Check idle_world = Some (ok, w')" by blast
  have "\<forall>i<200. line idle_world (samples idle_world + i)" by (simp add: idle_world_def)
  with ds18b20Check_presence [of idle_world, THEN conjunct1, rule_format, OF c]
  have "\<not> ok" by blast
  with c have 3: "\<exists>w'. ds18b20Check idle_world = Some (False, w')" by auto
  have "ticking (clock stuck_world)" by (simp add: stuck_world_def unit_clock_ticking)
  with ds18b20Check_presence [of stuck_world, THEN conjunct2]
  obtain ok' w'' where c': "ds18b20Check stuck_world = Some (ok', w'')" by blast
  have "(0 :: nat) < 200 \<and> (\<forall>i<0. line stuck_world (samples stuck_world + i))
      \<and> \<not> line stuck_world (samples stuck_world + 0)
      \<and> (\<forall>i<240. \<not> line stuck_world (samples stuck_world + Suc 0 + i))"
    by (simp add: stuck_world_def)
  with ds18b20Check_presence [of stuck_world, THEN conjunct1, rule_format, OF c']
  have "\<not> ok'" by blast
  with c' have 4: "\<exists>w'. ds18b20Check stuck_world = Some (False, w')" by auto
  from blink_check 1 2 3 4 show ?thesis by blast
qed

section \<open>Timing of the slots\<close>



lemma set_sleep_elapsed:
  assumes "sleep_us us (setDigitalValue v w) = Some w'" and "mono (clock w)" and "0 \<le> sint us"
  shows "reads w + 2 \<le> reads w'"
    and "clock w (reads w) + nat (sint us) \<le> clock w (reads w' - 1)"
  using sleep_us_elapsed [OF assms(1)] assms(2,3) by (simp_all add: setDigitalValue_def)


text \<open>
  C6: a write slot that returns has driven the line low, waited 2 microseconds for a 1
  (60 for a 0), driven it high, and waited 60 microseconds for a 1 (2 for a 0), and did
  nothing else. On a clock that never runs backwards the low phase and the high phase
  each last at least as long as requested, so the slot's last clock reading is at least
  62 microseconds (hence at least 60) after its first. On a ticking clock the slot returns.
\<close>

theorem write_slot_shape:
  "(\<forall>w'. ds18b20WiteByte_slot b w = Some w' \<longrightarrow>
      hist w' = hist w @
        [SetDigitalValue (pin w) False, SleepUs (if b then 2 else 60),
         SetDigitalValue (pin w) True, SleepUs (if b then 60 else 2)]
    \<and> (mono (clock w) \<longrightarrow>
         (\<exists>n. reads w + 2 \<le> n \<and> n + 2 \<le> reads w'
            \<and> clock w (reads w) + (if b then 2 else 60) \<le> clock w (n - 1)
            \<and> clock w n + (if b then 60 else 2) \<le> clock w (reads w' - 1))
       \<and> clock w (reads w) + 62 \<le> clock w (reads w' - 1)))
   \<and> (ticking (clock w) \<longrightarrow> (\<exists>w'. ds18b20WiteByte_slot b w = Some w'))"
proof (intro conjI allI impI)
  fix w'
  assume s: "ds18b20WiteByte_slot b w = Some w'"
  from advance_sel(5) [OF advance_write_slot [OF s]]
  show "hist w' = hist w @
        [SetDigitalValue (pin w) False, SleepUs (if b then 2 else 60),
         SetDigitalValue (pin w) True, SleepUs (if b then 60 else 2)]"
    by (simp add: write_slot_events_def)
  assume mono: "mono (clock w)"
  from s obtain w1 where
    s1: "sleep_us (if b then 2 else 60) (setDigitalValue False w) = Some w1" and
    s2: "sleep_us (if b then 60 else 2) (setDigitalValue True w1) = Some w'"
    by (auto simp: ds18b20WiteByte_slot_def bind_eq_Some_conv split: if_splits)
  note a1 = advance_set_sleep [OF s1]
  have c1: "clock w1 = clock w" by (rule advance_sel(1) [OF a1])
  have e1: "reads w + 2 \<le> reads w1"
    "clock w (reads w) + (if b then 2 else 60) \<le> clock w (reads w1 - 1)"
    using set_sleep_elapsed [OF s1 mono] by (cases b; simp)+
  have e2: "reads w1 + 2 \<le> reads w'"
    "clock w (reads w1) + (if b then 60 else 2) \<le> clock w (reads w' - 1)"
    using set_sleep_elapsed [OF s2] mono c1 by (cases b; simp)+
  from e1 e2 show low_high: "\<exists>n. reads w + 2 \<le> n \<and> n + 2 \<le> reads w'
            \<and> clock w (reads w) + (if b then 2 else 60) \<le> clock w (n - 1)
            \<and> clock w n + (if b then 60 else 2) \<le> clock w (reads w' - 1)"
    by blast
  have "clock w (reads w1 - 1) \<le> clock w (reads w1)" using mono by (simp add: monoD)
  with e1(2) e2(2) show "clock w (reads w) + 62 \<le> clock w (reads w' - 1)"
    by (cases b) simp_all
next
  assume "ticking (clock w)"
  then obtain w' where "ds18b20WiteByte_slot b w = Some w'" by (rule returns_write_slot)
  then show "\<exists>w'. ds18b20WiteByte_slot b w = Some w'" ..
qed

text \<open>
  The theorem above for a written 1 on the clock whose \<open>k\<close>-th reading is \<open>k\<close>: the slot
  makes the readings 0 to 63.
\<close>

theorem write_slot_shape_witness:
  "ds18b20WiteByte_slot True idle_world
     = Some (idle_world\<lparr>reads := 64,
          hist := [SetDigitalValue P8 False, SleepUs 2, SetDigitalValue P8 True, SleepUs 60]\<rparr>)
   \<and> mono (clock idle_world)
   \<and> clock idle_world 0 + 62 \<le> clock idle_world 63
   \<and> ticking (clock idle_world)
   \<and> (\<exists>w'. ds18b20WiteByte_slot False idle_world = Some w')"
proof -
  have e: "ds18b20WiteByte_slot True idle_world
     = Some (idle_world\<lparr>reads := 64,
          hist := [SetDigitalValue P8 False, SleepUs 2, SetDigitalValue P8 True, SleepUs 60]\<rparr>)"
    by (simp add: ds18b20WiteByte_slot_def setDigitalValue_def sleep_us_def sleep_us_poll.simps
        system_timer_current_time_us_def idle_world_def unit_clock_def word_sless_alt)
  have m: "mono (clock idle_world)" by (simp add: idle_world_def unit_clock_mono)
  have t: "ticking (clock idle_world)" by (simp add: idle_world_def unit_clock_ticking)
  from write_slot_shape [of True idle_world, THEN conjunct1, rule_format, OF e] m
  have "clock idle_world (reads idle_world) + 62
          \<le> clock idle_world (reads (idle_world\<lparr>reads := 64,
          hist := [SetDigitalValue P8 False, SleepUs 2, SetDigitalValue P8 True, SleepUs 60]\<rparr>) - 1)"
    by blast
  then have "clock idle_world 0 + 62 \<le> clock idle_world 63" by (simp add: idle_world_def)
  moreover from write_slot_shape [of False idle_world, THEN conjunct2] t
  have "\<exists>w'. ds18b20WiteByte_slot False idle_world = Some w'" by blast
  ultimately show ?thesis using e m t by blast
qed






section \<open>Writing a byte and reading it back\<close>

lemma slot_levels_write_slot:
  "slot_levels (write_slot_events p b @ es) = b # slot_levels es"
  by (cases b) (simp_all add: write_slot_events_def word_sless_alt)

lemma slot_levels_write_slots:
  "slot_levels (concat (map (\<lambda>i. write_slot_events p (f i)) xs)) = map f xs"
  by (induction xs) (simp_all add: slot_levels_write_slot)

lemma slot_levels_write_byte: "slot_levels (write_byte_events p d) = map (bit d) [0..<8]"
  unfolding write_byte_events_def by (rule slot_levels_write_slots)

lemma read_back:
  assumes wr: "ds18b20WiteByte v w = Some w1"
    and loop: "map (\<lambda>j. line w1 (samples w1 + j)) [0..<8]
                 = slot_levels (drop (length (hist w)) (hist w1))"
    and rd: "ds18b20ReadByte w1 = Some (d, w2)"
  shows "d = v"
proof (rule bit_word_eqI)
  fix j
  assume "j < LENGTH(8)"
  then have j: "j < 8" by simp
  from advance_sel(5) [OF advance_write_byte [OF wr]]
  have "drop (length (hist w)) (hist w1) = write_byte_events (pin w) v" by simp
  with loop have "map (\<lambda>j. line w1 (samples w1 + j)) [0..<8] = map (bit v) [0..<8]"
    by (simp only: slot_levels_write_byte)
  with j have "line w1 (samples w1 + j) = bit v j" by simp
  with advance_read_byte(2) [OF rd] j show "bit d j = bit v j" by simp
qed

text \<open>
  C5: write a byte \<open>v\<close>, and let the line then show, at the eight samples that follow,
  the levels that the eight write slots encoded, in the same order. A byte read started
  right after the write can only return \<open>v\<close>, and on a ticking clock it does return.
\<close>

theorem write_then_read_byte:
  assumes "ds18b20WiteByte v w = Some w1"
    and "map (\<lambda>j. line w1 (samples w1 + j)) [0..<8]
           = slot_levels (drop (length (hist w)) (hist w1))"
  shows "(\<forall>d w2. ds18b20ReadByte w1 = Some (d, w2) \<longrightarrow> d = v)
       \<and> (ticking (clock w1) \<longrightarrow> (\<exists>w2. ds18b20ReadByte w1 = Some (v, w2)))"
proof (intro conjI allI impI)
  fix d w2
  assume "ds18b20ReadByte w1 = Some (d, w2)"
  with assms show "d = v" by (rule read_back)
next
  assume "ticking (clock w1)"
  then obtain d w2 where r: "ds18b20ReadByte w1 = Some (d, w2)" by (rule returns_read_byte)
  with assms have "d = v" by (rule read_back)
  with r show "\<exists>w2. ds18b20ReadByte w1 = Some (v, w2)" by blast
qed

text \<open>
  The theorem above for the byte \<open>0xA5\<close> on the line that echoes it: the write returns,
  the line shows the written levels, and the read returns \<open>0xA5\<close>.
\<close>

theorem write_then_read_byte_witness:
  "\<exists>w1 w2. ds18b20WiteByte 0xA5 (echo_world 0xA5) = Some w1
      \<and> map (\<lambda>j. line w1 (samples w1 + j)) [0..<8]
           = slot_levels (drop (length (hist (echo_world 0xA5))) (hist w1))
      \<and> ticking (clock w1)
      \<and> ds18b20ReadByte w1 = Some (0xA5, w2)"
proof -
  have t: "ticking (clock (echo_world 0xA5))" by (simp add: echo_world_def unit_clock_ticking)
  then obtain w1 where wr: "ds18b20WiteByte 0xA5 (echo_world 0xA5) = Some w1"
    and t1: "ticking (clock w1)" by (rule returns_write_byte)
  note a = advance_write_byte [OF wr]
  have "drop (length (hist (echo_world 0xA5))) (hist w1)
          = write_byte_events (pin (echo_world 0xA5)) 0xA5"
    using advance_sel(5) [OF a] by simp
  moreover have "map (\<lambda>j. line w1 (samples w1 + j)) [0..<8] = map (bit (0xA5 :: 8 word)) [0..<8]"
    using advance_sel(2,4) [OF a] by (simp add: echo_world_def)
  ultimately have loop: "map (\<lambda>j. line w1 (samples w1 + j)) [0..<8]
           = slot_levels (drop (length (hist (echo_world 0xA5))) (hist w1))"
    by (simp only: slot_levels_write_byte)
  from write_then_read_byte [OF wr loop] t1 obtain w2 where
    "ds18b20ReadByte w1 = Some (0xA5, w2)" by blast
  with wr loop t1 show ?thesis by blast
qed

section \<open>The transactions\<close>

lemma drivesI: "advance w k es w' \<Longrightarrow> list_all (on_pin (pin w)) es \<Longrightarrow> drives w w'"
  unfolding drives_def by blast

lemma drives_trans:
  assumes "drives w w1" and "drives w1 w2"
  shows "drives w w2"
proof -
  from assms(1) obtain k es where a1: "advance w k es w1" and p1: "list_all (on_pin (pin w)) es"
    unfolding drives_def by blast
  from assms(2) obtain k' es' where a2: "advance w1 k' es' w2"
    and p2: "list_all (on_pin (pin w1)) es'"
    unfolding drives_def by blast
  from p1 p2 have "list_all (on_pin (pin w)) (es @ es')" by (simp add: advance_sel(3) [OF a1])
  with advance_trans [OF a1 a2] show ?thesis by (rule drivesI)
qed

lemma drives_sel:
  assumes "drives w w'"
  shows "pin w' = pin w" "clock w' = clock w" "line w' = line w"
    and "\<exists>es. hist w' = hist w @ es \<and> (\<forall>e\<in>set es. on_pin (pin w) e)"
proof -
  from assms obtain k es where a: "advance w k es w'" and p: "list_all (on_pin (pin w)) es"
    unfolding drives_def by blast
  show "pin w' = pin w" "clock w' = clock w" "line w' = line w"
    by (simp_all add: advance_sel [OF a])
  from p advance_sel(5) [OF a]
  show "\<exists>es. hist w' = hist w @ es \<and> (\<forall>e\<in>set es. on_pin (pin w) e)"
    by (auto simp: list_all_iff)
qed

lemma on_pin_write_slot: "list_all (on_pin p) (write_slot_events p b)"
  by (simp add: write_slot_events_def)

lemma on_pin_write_byte: "list_all (on_pin p) (write_byte_events p d)"
  by (simp add: write_byte_events_def list_all_iff write_slot_events_def)

lemma on_pin_read_slot: "list_all (on_pin p) (read_slot_events p v)"
  by (simp add: read_slot_events_def)

lemma on_pin_read_byte: "list_all (on_pin p) (read_byte_events p lv)"
  by (simp add: read_byte_events_def list_all_iff read_slot_events_def)

lemma on_pin_reset: "list_all (on_pin p) (reset_events p)"
  by (simp add: reset_events_def)

lemma on_pin_poll: "list_all (on_pin p) (poll_events p v k)"
  by (induction k) (simp_all add: poll_events_def)

lemma drives_sleep: "sleep_us us w = Some w' \<Longrightarrow> drives w w'"
  by (rule drivesI [OF advance_sleep]) simp_all

lemma drives_write_byte: "ds18b20WiteByte d w = Some w' \<Longrightarrow> drives w w'"
  by (rule drivesI [OF advance_write_byte]) (simp_all add: on_pin_write_byte)

lemma drives_read_byte: "ds18b20ReadByte w = Some (d, w') \<Longrightarrow> drives w w'"
  by (rule drivesI [OF advance_read_byte(1)]) (simp_all add: on_pin_read_byte)

lemma drives_reset: "ds18b20Rest w = Some w' \<Longrightarrow> drives w w'"
  by (rule drivesI [OF advance_reset]) (simp_all add: on_pin_reset)

lemma drives_check:
  assumes "ds18b20Check w = Some (ok, w')"
  shows "drives w w'"
proof -
  from check_spec [OF assms]
  consider "advance w 200 (poll_events (pin w) True 200) w'"
    | k where "advance w (Suc k + 240)
                 ((poll_events (pin w) True k @ [GetDigitalValue (pin w) False])
                  @ poll_events (pin w) False 240) w'"
    | k j where "advance w (Suc k + Suc j)
                 ((poll_events (pin w) True k @ [GetDigitalValue (pin w) False])
                  @ poll_events (pin w) False j @ [GetDigitalValue (pin w) True]) w'"
    by blast
  then show ?thesis
    by cases (erule drivesI, simp add: on_pin_poll)+
qed

subsection \<open>The two transactions\<close>

lemma start_spec:
  assumes "ds18b20Start w = Some w'"
  obtains w1 ok w2 where "ds18b20Rest w = Some w1" and "ds18b20Check w1 = Some (ok, w2)"
    and "advance w2 0
           (SleepUs 2 # write_byte_events (pin w) 0xCC @ write_byte_events (pin w) 0x44) w'"
proof -
  from assms obtain w1 r w3 w4 where
    r: "ds18b20Rest w = Some w1" and c: "ds18b20Check w1 = Some r" and
    s: "sleep_us 2 (snd r) = Some w3" and
    b1: "ds18b20WiteByte 0xCC w3 = Some w4" and
    b2: "ds18b20WiteByte 0x44 w4 = Some w'"
    by (auto simp: ds18b20Start_def bind_eq_Some_conv case_prod_beta)
  obtain ok w2 where r': "r = (ok, w2)" by (cases r)
  from c r' have c': "ds18b20Check w1 = Some (ok, w2)" by simp
  have p: "pin w2 = pin w"
    using drives_sel(1) [OF drives_check [OF c']] drives_sel(1) [OF drives_reset [OF r]] by simp
  from s r' have s': "sleep_us 2 w2 = Some w3" by simp
  note a1 = advance_sleep [OF s']
  note a2 = advance_trans [OF a1 advance_write_byte [OF b1]]
  note a3 = advance_trans [OF a2 advance_write_byte [OF b2]]
  from a3 have "advance w2 0
           (SleepUs 2 # write_byte_events (pin w) 0xCC @ write_byte_events (pin w) 0x44) w'"
    by (simp add: advance_sel(3) [OF a1] advance_sel(3) [OF a2] p)
  with r c' show thesis by (rule that)
qed

lemma drives_start:
  assumes "ds18b20Start w = Some w'"
  shows "drives w w'"
proof -
  from assms obtain w1 ok w2 where r: "ds18b20Rest w = Some w1"
    and c: "ds18b20Check w1 = Some (ok, w2)"
    and a: "advance w2 0
           (SleepUs 2 # write_byte_events (pin w) 0xCC @ write_byte_events (pin w) 0x44) w'"
    by (rule start_spec)
  note d1 = drives_trans [OF drives_reset [OF r] drives_check [OF c]]
  have "list_all (on_pin (pin w2))
          (SleepUs 2 # write_byte_events (pin w) 0xCC @ write_byte_events (pin w) 0x44)"
    by (simp add: drives_sel(1) [OF d1] on_pin_write_byte)
  with a have "drives w2 w'" by (rule drivesI)
  with d1 show ?thesis by (rule drives_trans)
qed

lemma get_spec:
  assumes "ds18b20GetTemperture w = Some (t, w')"
  obtains ws w0 w1 ok w2 TL TH where
    "ds18b20Start w = Some ws" and "sleep_us 100 ws = Some w0"
    and "ds18b20Rest w0 = Some w1" and "ds18b20Check w1 = Some (ok, w2)"
    and "advance w2 16
           (SleepUs 2 # write_byte_events (pin w) 0xCC @ write_byte_events (pin w) 0xBE
            @ read_byte_events (pin w) (\<lambda>j. line w (samples w2 + j))
            @ SleepUs 100 # read_byte_events (pin w) (\<lambda>j. line w (samples w2 + 8 + j))) w'"
    and "\<forall>j. bit TL j \<longleftrightarrow> j < 8 \<and> line w (samples w2 + j)"
    and "\<forall>j. bit TH j \<longleftrightarrow> j < 8 \<and> line w (samples w2 + 8 + j)"
    and "t = ds18b20GetTemperture_decode TH TL"
proof -
  from assms obtain ws w0 w1 r w3 w4 w5 rl w7 rh where
    st: "ds18b20Start w = Some ws" and s0: "sleep_us 100 ws = Some w0" and
    r: "ds18b20Rest w0 = Some w1" and c: "ds18b20Check w1 = Some r" and
    s: "sleep_us 2 (snd r) = Some w3" and
    b1: "ds18b20WiteByte 0xCC w3 = Some w4" and
    b2: "ds18b20WiteByte 0xBE w4 = Some w5" and
    r1: "ds18b20ReadByte w5 = Some rl" and
    s7: "sleep_us 100 (snd rl) = Some w7" and
    r2: "ds18b20ReadByte w7 = Some rh" and
    res: "t = ds18b20GetTemperture_decode (fst rh) (fst rl)" "w' = snd rh"
    by (auto simp: ds18b20GetTemperture_def bind_eq_Some_conv case_prod_beta)
  obtain ok w2 where r': "r = (ok, w2)" by (cases r)
  obtain TL w6 where rl': "rl = (TL, w6)" by (cases rl)
  obtain TH w8 where rh': "rh = (TH, w8)" by (cases rh)
  from c r' have c': "ds18b20Check w1 = Some (ok, w2)" by simp
  from s r' have s': "sleep_us 2 w2 = Some w3" by simp
  from r1 rl' have r1': "ds18b20ReadByte w5 = Some (TL, w6)" by simp
  from s7 rl' have s7': "sleep_us 100 w6 = Some w7" by simp
  from r2 rh' res have r2': "ds18b20ReadByte w7 = Some (TH, w')" by simp
  from res rh' rl' have t: "t = ds18b20GetTemperture_decode TH TL" by simp
  have p0: "pin w0 = pin w" "line w0 = line w"
    using drives_sel(1,3) [OF drives_start [OF st]] drives_sel(1,3) [OF drives_sleep [OF s0]]
    by simp_all
  have p1: "pin w1 = pin w" "line w1 = line w"
    using drives_sel(1,3) [OF drives_reset [OF r]] p0 by simp_all
  have p2: "pin w2 = pin w" "line w2 = line w"
    using drives_sel(1,3) [OF drives_check [OF c']] p1 by simp_all
  note a1 = advance_sleep [OF s']
  note a2 = advance_trans [OF a1 advance_write_byte [OF b1]]
  note a3 = advance_trans [OF a2 advance_write_byte [OF b2]]
  note a4 = advance_trans [OF a3 advance_read_byte(1) [OF r1']]
  note a5 = advance_trans [OF a4 advance_sleep [OF s7']]
  note a6 = advance_trans [OF a5 advance_read_byte(1) [OF r2']]
  have q: "pin w3 = pin w" "pin w4 = pin w" "pin w5 = pin w" "pin w7 = pin w"
    "line w5 = line w" "line w7 = line w" "samples w5 = samples w2" "samples w7 = samples w2 + 8"
    using advance_sel [OF a1] advance_sel [OF a2] advance_sel [OF a3] advance_sel [OF a5] p2
    by simp_all
  from a6 have adv: "advance w2 16
           (SleepUs 2 # write_byte_events (pin w) 0xCC @ write_byte_events (pin w) 0xBE
            @ read_byte_events (pin w) (\<lambda>j. line w (samples w2 + j))
            @ SleepUs 100 # read_byte_events (pin w) (\<lambda>j. line w (samples w2 + 8 + j))) w'"
    by (simp add: q p2)
  from advance_read_byte(2) [OF r1'] have tl: "\<forall>j. bit TL j \<longleftrightarrow> j < 8 \<and> line w (samples w2 + j)"
    by (simp add: q)
  from advance_read_byte(2) [OF r2'] have th: "\<forall>j. bit TH j \<longleftrightarrow> j < 8 \<and> line w (samples w2 + 8 + j)"
    by (simp add: q)
  from st s0 r c' adv tl th t show thesis by (rule that)
qed

lemma returns_start:
  assumes "ticking (clock w)"
  obtains w' where "ds18b20Start w = Some w'" and "ticking (clock w')"
proof -
  from assms obtain w1 where r: "ds18b20Rest w = Some w1" and t1: "ticking (clock w1)"
    by (rule returns_reset)
  from t1 obtain ok w2 where c: "ds18b20Check w1 = Some (ok, w2)" and t2: "ticking (clock w2)"
    by (rule returns_check)
  from t2 obtain w3 where s: "sleep_us 2 w2 = Some w3" and t3: "ticking (clock w3)"
    by (rule returns_sleep [where us = 2]) simp_all
  from t3 obtain w4 where b1: "ds18b20WiteByte 0xCC w3 = Some w4" and t4: "ticking (clock w4)"
    by (rule returns_write_byte)
  from t4 obtain w5 where b2: "ds18b20WiteByte 0x44 w4 = Some w5" and t5: "ticking (clock w5)"
    by (rule returns_write_byte)
  from r c s b1 b2 have "ds18b20Start w = Some w5" by (simp add: ds18b20Start_def)
  then show thesis using t5 by (rule that)
qed

lemma returns_get:
  assumes "ticking (clock w)"
  obtains t w' where "ds18b20GetTemperture w = Some (t, w')"
proof -
  from assms obtain ws where st: "ds18b20Start w = Some ws" and ts: "ticking (clock ws)"
    by (rule returns_start)
  from ts obtain w0 where s0: "sleep_us 100 ws = Some w0" and t0: "ticking (clock w0)"
    by (rule returns_sleep [where us = 100]) simp_all
  from t0 obtain w1 where r: "ds18b20Rest w0 = Some w1" and t1: "ticking (clock w1)"
    by (rule returns_reset)
  from t1 obtain ok w2 where c: "ds18b20Check w1 = Some (ok, w2)" and t2: "ticking (clock w2)"
    by (rule returns_check)
  from t2 obtain w3 where s: "sleep_us 2 w2 = Some w3" and t3: "ticking (clock w3)"
    by (rule returns_sleep [where us = 2]) simp_all
  from t3 obtain w4 where b1: "ds18b20WiteByte 0xCC w3 = Some w4" and t4: "ticking (clock w4)"
    by (rule returns_write_byte)
  from t4 obtain w5 where b2: "ds18b20WiteByte 0xBE w4 = Some w5" and t5: "ticking (clock w5)"
    by (rule returns_write_byte)
  from t5 obtain TL w6 where r1: "ds18b20ReadByte w5 = Some (TL, w6)" and t6: "ticking (clock w6)"
    by (rule returns_read_byte)
  from t6 obtain w7 where s7: "sleep_us 100 w6 = Some w7" and t7: "ticking (clock w7)"
    by (rule returns_sleep [where us = 100]) simp_all
  from t7 obtain TH w8 where r2: "ds18b20ReadByte w7 = Some (TH, w8)"
    by (rule returns_read_byte)
  from st s0 r c s b1 b2 r1 s7 r2
  have "ds18b20GetTemperture w = Some (ds18b20GetTemperture_decode TH TL, w8)"
    by (simp add: ds18b20GetTemperture_def)
  then show thesis by (rule that)
qed

lemma drives_get:
  assumes "ds18b20GetTemperture w = Some (t, w')"
  shows "drives w w'"
proof -
  from assms obtain ws w0 w1 ok w2 where
    st: "ds18b20Start w = Some ws" and s0: "sleep_us 100 ws = Some w0" and
    r: "ds18b20Rest w0 = Some w1" and c: "ds18b20Check w1 = Some (ok, w2)" and
    a: "advance w2 16
           (SleepUs 2 # write_byte_events (pin w) 0xCC @ write_byte_events (pin w) 0xBE
            @ read_byte_events (pin w) (\<lambda>j. line w (samples w2 + j))
            @ SleepUs 100 # read_byte_events (pin w) (\<lambda>j. line w (samples w2 + 8 + j))) w'"
    by (rule get_spec)
  note d1 = drives_trans [OF drives_start [OF st] drives_sleep [OF s0]]
  note d2 = drives_trans [OF d1 drives_reset [OF r]]
  note d3 = drives_trans [OF d2 drives_check [OF c]]
  have "list_all (on_pin (pin w2))
          (SleepUs 2 # write_byte_events (pin w) 0xCC @ write_byte_events (pin w) 0xBE
            @ read_byte_events (pin w) (\<lambda>j. line w (samples w2 + j))
            @ SleepUs 100 # read_byte_events (pin w) (\<lambda>j. line w (samples w2 + 8 + j)))"
    by (simp add: drives_sel(1) [OF d3] on_pin_write_byte on_pin_read_byte)
  with a have "drives w2 w'" by (rule drivesI)
  with d3 show ?thesis by (rule drives_trans)
qed

text \<open>
  C3, as the code has it: the result of the presence check is not used. Whenever the
  check of the conversion-start transaction has returned, with success or with failure,
  the transaction goes on: it waits 2 microseconds and writes the bytes \<open>0xCC\<close> and \<open>0x44\<close>.
  Whenever the check of the read transaction has returned, with success or with failure,
  the transaction waits 2 microseconds, writes \<open>0xCC\<close> and \<open>0xBE\<close>, reads two bytes from
  the next sixteen samples of the line and decodes them. On a ticking clock both
  transactions return.
\<close>

theorem presence_result_unused:
  "(\<forall>w1 ok w2 w'. ds18b20Rest w = Some w1 \<and> ds18b20Check w1 = Some (ok, w2)
        \<and> ds18b20Start w = Some w' \<longrightarrow>
      hist w' = hist w2 @
        SleepUs 2 # write_byte_events (pin w) 0xCC @ write_byte_events (pin w) 0x44)
   \<and> (\<forall>ws w0 w1 ok w2 t w'. ds18b20Start w = Some ws \<and> sleep_us 100 ws = Some w0
        \<and> ds18b20Rest w0 = Some w1 \<and> ds18b20Check w1 = Some (ok, w2)
        \<and> ds18b20GetTemperture w = Some (t, w') \<longrightarrow>
      (\<exists>TL TH.
         hist w' = hist w2 @
           SleepUs 2 # write_byte_events (pin w) 0xCC @ write_byte_events (pin w) 0xBE
           @ read_byte_events (pin w) (\<lambda>j. line w (samples w2 + j))
           @ SleepUs 100 # read_byte_events (pin w) (\<lambda>j. line w (samples w2 + 8 + j))
       \<and> (\<forall>j. bit TL j \<longleftrightarrow> j < 8 \<and> line w (samples w2 + j))
       \<and> (\<forall>j. bit TH j \<longleftrightarrow> j < 8 \<and> line w (samples w2 + 8 + j))
       \<and> t = ds18b20GetTemperture_decode TH TL))
   \<and> (ticking (clock w) \<longrightarrow>
        (\<exists>w'. ds18b20Start w = Some w') \<and> (\<exists>t w'. ds18b20GetTemperture w = Some (t, w')))"
proof (intro conjI allI impI)
  fix w1 ok w2 w'
  assume h: "ds18b20Rest w = Some w1 \<and> ds18b20Check w1 = Some (ok, w2)
        \<and> ds18b20Start w = Some w'"
  then have "ds18b20Start w = Some w'" by blast
  then obtain w1' ok' w2' where "ds18b20Rest w = Some w1'" "ds18b20Check w1' = Some (ok', w2')"
    and a: "advance w2' 0
           (SleepUs 2 # write_byte_events (pin w) 0xCC @ write_byte_events (pin w) 0x44) w'"
    by (rule start_spec)
  with h have "w2' = w2" by simp
  with advance_sel(5) [OF a]
  show "hist w' = hist w2 @
        SleepUs 2 # write_byte_events (pin w) 0xCC @ write_byte_events (pin w) 0x44"
    by simp
next
  fix ws w0 w1 ok w2 t w'
  assume h: "ds18b20Start w = Some ws \<and> sleep_us 100 ws = Some w0
        \<and> ds18b20Rest w0 = Some w1 \<and> ds18b20Check w1 = Some (ok, w2)
        \<and> ds18b20GetTemperture w = Some (t, w')"
  then have "ds18b20GetTemperture w = Some (t, w')" by blast
  then obtain ws' w0' w1' ok' w2' TL TH where
    g: "ds18b20Start w = Some ws'" "sleep_us 100 ws' = Some w0'"
      "ds18b20Rest w0' = Some w1'" "ds18b20Check w1' = Some (ok', w2')" and
    a: "advance w2' 16
           (SleepUs 2 # write_byte_events (pin w) 0xCC @ write_byte_events (pin w) 0xBE
            @ read_byte_events (pin w) (\<lambda>j. line w (samples w2' + j))
            @ SleepUs 100 # read_byte_events (pin w) (\<lambda>j. line w (samples w2' + 8 + j))) w'" and
    b: "\<forall>j. bit TL j \<longleftrightarrow> j < 8 \<and> line w (samples w2' + j)"
      "\<forall>j. bit TH j \<longleftrightarrow> j < 8 \<and> line w (samples w2' + 8 + j)"
      "t = ds18b20GetTemperture_decode TH TL"
    by (rule get_spec)
  from h g have "ws' = ws" by simp
  with h g have "w0' = w0" by simp
  with h g have "w1' = w1" by simp
  with h g have e: "w2' = w2" by simp
  from advance_sel(5) [OF a] b e
  show "\<exists>TL TH.
         hist w' = hist w2 @
           SleepUs 2 # write_byte_events (pin w) 0xCC @ write_byte_events (pin w) 0xBE
           @ read_byte_events (pin w) (\<lambda>j. line w (samples w2 + j))
           @ SleepUs 100 # read_byte_events (pin w) (\<lambda>j. line w (samples w2 + 8 + j))
       \<and> (\<forall>j. bit TL j \<longleftrightarrow> j < 8 \<and> line w (samples w2 + j))
       \<and> (\<forall>j. bit TH j \<longleftrightarrow> j < 8 \<and> line w (samples w2 + 8 + j))
       \<and> t = ds18b20GetTemperture_decode TH TL"
    by blast
next
  assume t: "ticking (clock w)"
  then obtain w' where "ds18b20Start w = Some w'" by (rule returns_start)
  then show "\<exists>w'. ds18b20Start w = Some w'" ..
  from t obtain t' w' where "ds18b20GetTemperture w = Some (t', w')" by (rule returns_get)
  then show "\<exists>t w'. ds18b20GetTemperture w = Some (t, w')" by blast
qed

lemma check_all_high:
  assumes "ds18b20Check w = Some (ok, w')" and "\<forall>i<200. line w (samples w + i)"
  shows "\<not> ok" and "advance w 200 (poll_events (pin w) True 200) w'"
proof -
  from check_spec [OF assms(1)] assms(2)
  have "\<not> ok \<and> advance w 200 (poll_events (pin w) True 200) w'" by blast
  then show "\<not> ok" and "advance w 200 (poll_events (pin w) True 200) w'" by blast+
qed

lemma all_ones:
  assumes "\<forall>j. bit (b :: 8 word) j \<longleftrightarrow> j < 8"
  shows "b = 0xFF"
proof -
  have "b = - 1" by (rule bit_word_eqI) (simp add: assms)
  then show ?thesis by simp
qed

lemma idle_world_start:
  obtains w1 w2 w' where "ds18b20Rest idle_world = Some w1"
    and "ds18b20Check w1 = Some (False, w2)"
    and "ds18b20Start idle_world = Some w'"
    and "hist w2 = reset_events P8 @ poll_events P8 True 200"
proof -
  have t: "ticking (clock idle_world)" by (simp add: idle_world_def unit_clock_ticking)
  then obtain w1 where r: "ds18b20Rest idle_world = Some w1" and t1: "ticking (clock w1)"
    by (rule returns_reset)
  note a1 = advance_reset [OF r]
  from t1 obtain ok w2 where c: "ds18b20Check w1 = Some (ok, w2)" by (rule returns_check)
  have "\<forall>i<200. line w1 (samples w1 + i)"
    by (simp add: advance_sel(2) [OF a1] idle_world_def)
  note f = check_all_high [OF c this]
  from f(1) c have c': "ds18b20Check w1 = Some (False, w2)" by simp
  from t obtain w' where s: "ds18b20Start idle_world = Some w'" by (rule returns_start)
  have "hist w2 = reset_events P8 @ poll_events P8 True 200"
    using advance_sel(5) [OF advance_trans [OF a1 f(2)]] advance_sel(3) [OF a1]
    by (simp add: idle_world_def)
  with r c' s show thesis by (rule that)
qed

text \<open>
  C3 fails on the code. On a line that stays high (no device answers) the presence
  check of the conversion-start transaction returns false after 200 polls, and the
  transaction still writes the bytes \<open>0xCC\<close> and \<open>0x44\<close> after it; the whole measurement
  returns the temperature decoded from the sixteen high samples, \<open>(255 + 255) / 16\<close>.
\<close>

theorem failed_presence_counterexample:
  "map_option fst (ds18b20Rest idle_world \<bind> ds18b20Check) = Some False
   \<and> map_option hist (ds18b20Start idle_world)
       = Some (reset_events P8 @ poll_events P8 True 200
               @ SleepUs 2 # write_byte_events P8 0xCC @ write_byte_events P8 0x44)
   \<and> map_option fst (ds18b20GetTemperture idle_world) = Some 31.875"
proof -
  obtain w1 w2 w' where r: "ds18b20Rest idle_world = Some w1"
    and c: "ds18b20Check w1 = Some (False, w2)"
    and s: "ds18b20Start idle_world = Some w'"
    and h: "hist w2 = reset_events P8 @ poll_events P8 True 200"
    by (rule idle_world_start)
  from r c have 1: "map_option fst (ds18b20Rest idle_world \<bind> ds18b20Check) = Some False"
    by simp
  from s obtain w1' ok' w2' where "ds18b20Rest idle_world = Some w1'"
    "ds18b20Check w1' = Some (ok', w2')"
    and a: "advance w2' 0
           (SleepUs 2 # write_byte_events (pin idle_world) 0xCC
            @ write_byte_events (pin idle_world) 0x44) w'"
    by (rule start_spec)
  with r c have "w2' = w2" by simp
  with advance_sel(5) [OF a] h s
  have 2: "map_option hist (ds18b20Start idle_world)
       = Some (reset_events P8 @ poll_events P8 True 200
               @ SleepUs 2 # write_byte_events P8 0xCC @ write_byte_events P8 0x44)"
    by (simp add: idle_world_def)
  have "ticking (clock idle_world)" by (simp add: idle_world_def unit_clock_ticking)
  then obtain t wt where g: "ds18b20GetTemperture idle_world = Some (t, wt)"
    by (rule returns_get)
  then obtain TL TH :: "8 word" where
    "\<forall>j. bit TL j \<longleftrightarrow> j < 8 \<and> line idle_world j"
    "\<forall>j. bit TH j \<longleftrightarrow> j < 8 \<and> line idle_world j"
    "t = ds18b20GetTemperture_decode TH TL"
    by (rule get_spec) (simp add: idle_world_def)
  then have "TL = 0xFF" "TH = 0xFF" "t = ds18b20GetTemperture_decode TH TL"
    by (simp_all add: idle_world_def all_ones)
  then have "t = 31.875" by (simp add: ds18b20GetTemperture_decode_def)
  with g have 3: "map_option fst (ds18b20GetTemperture idle_world) = Some 31.875" by simp
  from 1 2 3 show ?thesis by blast
qed

text \<open>
  The amended statement on a line on which a device answers (high, low, low, high): the
  check of the conversion-start transaction succeeds and the two command bytes follow;
  the measurement runs through its second check and returns the decoded bytes.
\<close>

theorem presence_result_unused_witness:
  "(\<exists>w1 w2 w'. ds18b20Rest blink_world = Some w1 \<and> ds18b20Check w1 = Some (True, w2)
      \<and> ds18b20Start blink_world = Some w'
      \<and> hist w' = hist w2 @ SleepUs 2 # write_byte_events P8 0xCC @ write_byte_events P8 0x44)
   \<and> ticking (clock blink_world)
   \<and> (\<exists>ws w0 w1 ok w2 t w' TL TH. ds18b20Start blink_world = Some ws
      \<and> sleep_us 100 ws = Some w0 \<and> ds18b20Rest w0 = Some w1
      \<and> ds18b20Check w1 = Some (ok, w2) \<and> ds18b20GetTemperture blink_world = Some (t, w')
      \<and> t = ds18b20GetTemperture_decode TH TL)"
proof -
  have t: "ticking (clock blink_world)" by (simp add: blink_world_def unit_clock_ticking)
  then obtain w1 where r: "ds18b20Rest blink_world = Some w1" and t1: "ticking (clock w1)"
    by (rule returns_reset)
  note a1 = advance_reset [OF r]
  from t1 obtain ok w2 where c: "ds18b20Check w1 = Some (ok, w2)" by (rule returns_check)
  have l: "line w1 = (\<lambda>k. k mod 3 = 0)" "samples w1 = 0"
    using advance_sel(2,4) [OF a1] by (simp_all add: blink_world_def)
  have "(\<forall>i<1. line w1 (samples w1 + i)) \<and> \<not> line w1 (samples w1 + 1)
          \<and> line w1 (samples w1 + Suc 1 + 1)" by (simp add: l)
  then have "\<exists>k<200. (\<forall>i<k. line w1 (samples w1 + i)) \<and> \<not> line w1 (samples w1 + k)
                  \<and> (\<exists>j<240. line w1 (samples w1 + Suc k + j))"
    by (intro exI [of _ 1] conjI) simp_all
  with check_result [OF c] have ok by blast
  with c have c': "ds18b20Check w1 = Some (True, w2)" by simp
  note th = presence_result_unused [of blink_world]
  from th t obtain w' where s: "ds18b20Start blink_world = Some w'" by blast
  from th [THEN conjunct1, rule_format, of w1 True w2 w'] r c' s
  have "hist w' = hist w2 @ SleepUs 2 # write_byte_events P8 0xCC @ write_byte_events P8 0x44"
    by (simp add: blink_world_def)
  with r c' s have 1: "\<exists>w1 w2 w'. ds18b20Rest blink_world = Some w1
      \<and> ds18b20Check w1 = Some (True, w2) \<and> ds18b20Start blink_world = Some w'
      \<and> hist w' = hist w2 @ SleepUs 2 # write_byte_events P8 0xCC @ write_byte_events P8 0x44"
    by blast
  from th t obtain tm wm where g: "ds18b20GetTemperture blink_world = Some (tm, wm)" by blast
  then obtain ws w0 v1 ok2 v2 where
    i: "ds18b20Start blink_world = Some ws" "sleep_us 100 ws = Some w0"
      "ds18b20Rest w0 = Some v1" "ds18b20Check v1 = Some (ok2, v2)"
    by (rule get_spec)
  from th [THEN conjunct2, THEN conjunct1, rule_format, of ws w0 v1 ok2 v2 tm wm] i g
  obtain TL TH where "tm = ds18b20GetTemperture_decode TH TL" by blast
  with i g have 2: "\<exists>ws w0 w1 ok w2 t w' TL TH. ds18b20Start blink_world = Some ws
      \<and> sleep_us 100 ws = Some w0 \<and> ds18b20Rest w0 = Some w1
      \<and> ds18b20Check w1 = Some (ok, w2) \<and> ds18b20GetTemperture blink_world = Some (t, w')
      \<and> t = ds18b20GetTemperture_decode TH TL"
    by blast
  from 1 t 2 show ?thesis by blast
qed

section \<open>Pin selection\<close>

lemma temperature_default:
  assumes "\<not> (0 \<le> p \<and> p \<le> 16)"
  shows "temperature p w = ds18b20GetTemperture (w\<lparr>pin := P8\<rparr>)"
proof -
  from assms have "p \<noteq> 0" "p \<noteq> 1" "p \<noteq> 2" "p \<noteq> 3" "p \<noteq> 4" "p \<noteq> 5" "p \<noteq> 6" "p \<noteq> 7"
    "p \<noteq> 8" "p \<noteq> 9" "p \<noteq> 10" "p \<noteq> 11" "p \<noteq> 12" "p \<noteq> 13" "p \<noteq> 14" "p \<noteq> 15" "p \<noteq> 16"
    by auto
  then show ?thesis by (simp add: temperature_def)
qed

lemma temperature_mapped:
  assumes "0 \<le> p \<and> p \<le> 16"
  shows "temperature p w
     = ds18b20GetTemperture
         (w\<lparr>pin := [P0, P1, P2, P3, P4, P5, P6, P7, P8, P9, P10, P11, P12, P13, P14, P15, P16]
                      ! nat p\<rparr>)"
proof -
  from assms have "p = 0 \<or> p = 1 \<or> p = 2 \<or> p = 3 \<or> p = 4 \<or> p = 5 \<or> p = 6 \<or> p = 7 \<or> p = 8
      \<or> p = 9 \<or> p = 10 \<or> p = 11 \<or> p = 12 \<or> p = 13 \<or> p = 14 \<or> p = 15 \<or> p = 16"
    by arith
  then show ?thesis by (elim disjE) (simp_all add: temperature_def)
qed

text \<open>
  C8: \<open>temperature p\<close> binds pin \<open>Pp\<close> for a selector \<open>p\<close> from 0 to 16 and the default
  pin P8 for every other integer, and then runs the measurement on that pin. When it
  returns, the bound pin is still the global pin, and everything it logged happened on
  that pin. It raises no error: on a ticking clock it returns a reading for every \<open>p\<close>.
\<close>

theorem temperature_binds_pin:
  "temperature p w
     = ds18b20GetTemperture
         (w\<lparr>pin := (if 0 \<le> p \<and> p \<le> 16
                     then [P0, P1, P2, P3, P4, P5, P6, P7, P8, P9, P10, P11, P12, P13, P14,
                           P15, P16] ! nat p
                     else P8)\<rparr>)
   \<and> (\<forall>t w'. temperature p w = Some (t, w') \<longrightarrow>
         pin w' = (if 0 \<le> p \<and> p \<le> 16
                   then [P0, P1, P2, P3, P4, P5, P6, P7, P8, P9, P10, P11, P12, P13, P14,
                         P15, P16] ! nat p
                   else P8)
       \<and> (\<exists>es. hist w' = hist w @ es \<and> (\<forall>e\<in>set es. on_pin (pin w') e)))
   \<and> (ticking (clock w) \<longrightarrow> (\<exists>t w'. temperature p w = Some (t, w')))"
proof -
  define q where "q = (if 0 \<le> p \<and> p \<le> 16
                     then [P0, P1, P2, P3, P4, P5, P6, P7, P8, P9, P10, P11, P12, P13, P14,
                           P15, P16] ! nat p
                     else P8)"
  have eq: "temperature p w = ds18b20GetTemperture (w\<lparr>pin := q\<rparr>)"
  proof (cases "0 \<le> p \<and> p \<le> 16")
    case True
    have "q = [P0, P1, P2, P3, P4, P5, P6, P7, P8, P9, P10, P11, P12, P13, P14,
                    P15, P16] ! nat p" by (simp only: q_def if_P [OF True])
    with temperature_mapped [OF True, of w] show ?thesis by (simp only:)
  next
    case False
    have "q = P8" by (simp only: q_def if_not_P [OF False])
    with temperature_default [OF False, of w] show ?thesis by (simp only:)
  qed
  have run: "pin w' = q \<and> (\<exists>es. hist w' = hist w @ es \<and> (\<forall>e\<in>set es. on_pin (pin w') e))"
    if "temperature p w = Some (t, w')" for t w'
  proof -
    from that eq have "ds18b20GetTemperture (w\<lparr>pin := q\<rparr>) = Some (t, w')" by simp
    then have d: "drives (w\<lparr>pin := q\<rparr>) w'" by (rule drives_get)
    from drives_sel(1) [OF d] have p: "pin w' = q" by simp
    with drives_sel(4) [OF d] show ?thesis by simp
  qed
  have ret: "\<exists>t w'. temperature p w = Some (t, w')" if "ticking (clock w)"
  proof -
    from that have "ticking (clock (w\<lparr>pin := q\<rparr>))" by simp
    then obtain t w' where "ds18b20GetTemperture (w\<lparr>pin := q\<rparr>) = Some (t, w')"
      by (rule returns_get)
    with eq show ?thesis by simp
  qed
  from eq run ret show ?thesis unfolding q_def by blast
qed

text \<open>
  The theorem above for the selector 42, which is no pin, on the line that stays high:
  the measurement runs on P8 and returns.
\<close>

theorem temperature_binds_pin_witness:
  "temperature 42 idle_world = ds18b20GetTemperture (idle_world\<lparr>pin := P8\<rparr>)
   \<and> ticking (clock idle_world)
   \<and> (\<exists>t w'. temperature 42 idle_world = Some (t, w') \<and> pin w' = P8
         \<and> (\<exists>es. hist w' = hist idle_world @ es \<and> (\<forall>e\<in>set es. on_pin P8 e)))"
proof -
  have sel: "(if 0 \<le> (42 :: int) \<and> (42 :: int) \<le> 16
              then [P0, P1, P2, P3, P4, P5, P6, P7, P8, P9, P10, P11, P12, P13, P14,
                    P15, P16] ! nat 42
              else P8) = P8"
    by simp
  have t: "ticking (clock idle_world)" by (simp add: idle_world_def unit_clock_ticking)
  from temperature_binds_pin [of 42 idle_world, THEN conjunct1]
  have 1: "temperature 42 idle_world = ds18b20GetTemperture (idle_world\<lparr>pin := P8\<rparr>)"
    by (simp only: sel)
  from temperature_binds_pin [of 42 idle_world, THEN conjunct2, THEN conjunct2] t
  obtain r w' where r: "temperature 42 idle_world = Some (r, w')" by blast
  note c = temperature_binds_pin [of 42 idle_world, THEN conjunct2, THEN conjunct1,
      rule_format, OF r, unfolded sel]
  from c have p: "pin w' = P8" by blast
  from c obtain es where es: "hist w' = hist idle_world @ es" "\<forall>e\<in>set es. on_pin (pin w') e"
    by blast
  from es(2) p have "\<forall>e\<in>set es. on_pin P8 e" by simp
  with r p es(1) have "\<exists>t w'. temperature 42 idle_world = Some (t, w') \<and> pin w' = P8
         \<and> (\<exists>es. hist w' = hist idle_world @ es \<and> (\<forall>e\<in>set es. on_pin P8 e))"
    by blast
  with 1 t show ?thesis by blast
qed

end
